theory Spec2Isabelle
  imports Main "HOL-Library.Word" "HOL-Library.Signed_Division"
begin

section \<open>mtmq: a bounded multi-threaded message queue (mtmq.h, mtmq.c)\<close>

text \<open>
  The queue is a ring buffer of \<open>size\<close> slots guarded by one mutex and two condition
  variables. The model is a state-passing embedding of one thread's call: the queue is a
  record, a handle is \<open>mtmq option\<close> (\<open>None\<close> is the NULL pointer), and everything the
  call learns from the pthread library (the return code of \<open>pthread_mutex_lock\<close>, and for
  each \<open>pthread_cond_wait\<close> / \<open>pthread_cond_timedwait\<close> its return code and the queue as
  the other threads left it while the mutex was released) is an explicit argument.
\<close>

subsection \<open>C types and constants\<close>

text \<open>A C \<open>int\<close>: 32 bits, read as two's complement with \<open>sint\<close>, compared with \<open><s\<close>.\<close>

type_synonym c_int = "32 word"

text \<open>A \<open>void *\<close> payload: an address the queue never dereferences; 0 is NULL.\<close>

type_synonym void_ptr = nat

text \<open>The result codes of mtmq.h, an anonymous enum counting from 0.\<close>

definition MTMQ_RC_OK :: c_int where
  "MTMQ_RC_OK = 0"

definition MTMQ_RC_FINALIZED :: c_int where
  "MTMQ_RC_FINALIZED = 1"

definition MTMQ_RC_TIMEDOUT :: c_int where
  "MTMQ_RC_TIMEDOUT = 2"

definition MTMQ_RC_INTERRUPTED :: c_int where
  "MTMQ_RC_INTERRUPTED = 3"

definition MTMQ_RC_ERROR :: c_int where
  "MTMQ_RC_ERROR = 4"

text \<open>The two errno values the code tests, from errno.h (the Linux numbers).\<close>

definition EINTR :: c_int where
  "EINTR = 4"

definition ETIMEDOUT :: c_int where
  "ETIMEDOUT = 110"

subsection \<open>The queue\<close>

text \<open>\<open>struct mtmq_elt\<close>.\<close>

record mtmq_elt =
  code :: c_int
  data :: void_ptr

text \<open>
  \<open>struct mtmq\<close>. The fields \<open>last\<close> and \<open>size\<close> are \<open>last_q\<close> and \<open>size_q\<close> here. The
  mutex and the condition variables have no state of their own in the model: what they
  return is given by the environment of each call.
\<close>

record mtmq =
  num_rd :: c_int
  num_wr :: c_int
  fin :: c_int
  num :: c_int
  first :: c_int
  last_q :: c_int
  size_q :: c_int
  arr :: "mtmq_elt list"

text \<open>
  What a call can do: return a value, never return (it waits on a condition variable
  and no further wake-up comes), or index \<open>arr\<close> outside the allocated slots, which C
  leaves undefined.
\<close>

datatype 'a result = Returns 'a | Blocks | Undefined

text \<open>
  One wake-up from \<open>pthread_cond_wait\<close> or \<open>pthread_cond_timedwait\<close>: the return code,
  and the queue as other threads left it while the mutex was released (\<open>None\<close>: nobody
  touched it).
\<close>

type_synonym wake = "c_int \<times> mtmq option"

text \<open>The environment of one push or pop.\<close>

record call_env =
  lock_rc :: c_int
  wakes :: "wake list"

text \<open>An index into \<open>arr\<close> that lies inside the allocated slots.\<close>

definition in_arr :: "mtmq \<Rightarrow> c_int \<Rightarrow> bool" where
  "in_arr q i \<longleftrightarrow> 0 \<le>s i \<and> nat (sint i) < length (arr q)"

subsection \<open>mtmq\_create and mtmq\_destroy\<close>

text \<open>
  \<open>mtmq_create\<close> depends on whether \<open>malloc\<close> returns a block and on the return code of
  \<open>pthread_condattr_setclock\<close>. The block is zeroed by \<open>memset\<close>, then \<open>size\<close> and \<open>arr\<close> are
  set. There is no test of \<open>size\<close>. (For \<open>size < 0\<close> the byte count \<open>sizeof(mtmq_elt_t) * size\<close>
  wraps around in \<open>size_t\<close>; the model gives such a queue no slots.)
\<close>

record create_env =
  malloc_ok :: bool
  setclock_rc :: c_int

definition mtmq_create :: "create_env \<Rightarrow> c_int \<Rightarrow> mtmq option" where
  "mtmq_create env sz =
     (if \<not> malloc_ok env then None
      else
        let ret = \<lparr>num_rd = 0, num_wr = 0, fin = 0, num = 0, first = 0, last_q = 0,
                   size_q = sz, arr = replicate (nat (sint sz)) \<lparr>code = 0, data = 0\<rparr>\<rparr>
        in if setclock_rc env \<noteq> 0 then None else Some ret)"

text \<open>
  \<open>mtmq_destroy\<close>: the three return codes of the pthread destroy calls come from the
  environment. The second component is the queue object after the call: \<open>None\<close> once it
  has been freed.
\<close>

record destroy_env =
  cond_wr_rc :: c_int
  cond_rd_rc :: c_int
  mtx_rc :: c_int

definition mtmq_destroy :: "destroy_env \<Rightarrow> mtmq option \<Rightarrow> c_int \<times> mtmq option" where
  "mtmq_destroy env qp =
     (case qp of
        None \<Rightarrow> (MTMQ_RC_ERROR, None)
      | Some q \<Rightarrow>
          if cond_wr_rc env \<noteq> 0 then (MTMQ_RC_ERROR, Some q)
          else if cond_rd_rc env \<noteq> 0 then (MTMQ_RC_ERROR, Some q)
          else if mtx_rc env \<noteq> 0 then (MTMQ_RC_ERROR, Some q)
          else (MTMQ_RC_OK, None))"

subsection \<open>mtmq\_push\<close>

text \<open>
  The wait loop of push, \<open>for (rc=0; !q->fin && q->num==q->size && rc==0; ) rc = wait(...)\<close>.
  Each iteration consumes one wake-up; with none left the thread stays blocked.
\<close>

fun wait_wr :: "wake list \<Rightarrow> c_int \<Rightarrow> mtmq \<Rightarrow> (c_int \<times> mtmq) option" where
  "wait_wr [] rc q =
     (if fin q = 0 \<and> num q = size_q q \<and> rc = 0 then None else Some (rc, q))"
| "wait_wr ((rc', others) # ws) rc q =
     (if fin q = 0 \<and> num q = size_q q \<and> rc = 0
      then wait_wr ws rc' (case others of None \<Rightarrow> q | Some q' \<Rightarrow> q')
      else Some (rc, q))"

text \<open>
  \<open>mtmq_push\<close>. Both branches of \<open>if (timeout < 0)\<close> run the same loop, one around
  \<open>pthread_cond_wait\<close> and one around \<open>pthread_cond_timedwait\<close> with the deadline of
  \<open>calc_abs_timeout\<close>; the deadline only reaches the pthread library, whose answers are
  the wake-ups of the environment.
\<close>

definition mtmq_push ::
  "call_env \<Rightarrow> mtmq option \<Rightarrow> c_int \<Rightarrow> void_ptr \<Rightarrow> c_int \<Rightarrow> (c_int \<times> mtmq option) result" where
  "mtmq_push env qp c d timeout =
     (case qp of
        None \<Rightarrow> Returns (MTMQ_RC_ERROR, None)
      | Some q \<Rightarrow>
          if lock_rc env \<noteq> 0 then Returns (MTMQ_RC_ERROR, Some q)
          else
            (case (if timeout <s 0
                   then wait_wr (wakes env) 0 (q\<lparr>num_wr := num_wr q + 1\<rparr>)
                   else wait_wr (wakes env) 0 (q\<lparr>num_wr := num_wr q + 1\<rparr>)) of
               None \<Rightarrow> Blocks
             | Some (rc, q1) \<Rightarrow>
                 let q2 = q1\<lparr>num_wr := num_wr q1 - 1\<rparr> in
                 if fin q2 \<noteq> 0 then Returns (MTMQ_RC_FINALIZED, Some q2)
                 else if num q2 <s size_q q2 then
                   (if in_arr q2 (last_q q2) then
                      Returns (MTMQ_RC_OK,
                        Some (q2\<lparr>arr := (arr q2)[nat (sint (last_q q2)) := \<lparr>code = c, data = d\<rparr>],
                                 last_q := (if last_q q2 + 1 <s size_q q2 then last_q q2 + 1 else 0),
                                 num := num q2 + 1\<rparr>))
                    else Undefined)
                 else if rc = ETIMEDOUT then Returns (MTMQ_RC_TIMEDOUT, Some q2)
                 else if rc = EINTR then Returns (MTMQ_RC_INTERRUPTED, Some q2)
                 else Returns (MTMQ_RC_ERROR, Some q2)))"

subsection \<open>mtmq\_pop\<close>

text \<open>The wait loop of pop, \<open>for (rc=0; !q->num && !q->fin && rc==0; ) rc = wait(...)\<close>.\<close>

fun wait_rd :: "wake list \<Rightarrow> c_int \<Rightarrow> mtmq \<Rightarrow> (c_int \<times> mtmq) option" where
  "wait_rd [] rc q =
     (if num q = 0 \<and> fin q = 0 \<and> rc = 0 then None else Some (rc, q))"
| "wait_rd ((rc', others) # ws) rc q =
     (if num q = 0 \<and> fin q = 0 \<and> rc = 0
      then wait_rd ws rc' (case others of None \<Rightarrow> q | Some q' \<Rightarrow> q')
      else Some (rc, q))"

text \<open>
  \<open>mtmq_pop\<close>. The middle component of the result is what was stored through the output
  pointers \<open>code\<close> and \<open>data\<close>: \<open>None\<close> when the call wrote nothing.
\<close>

definition mtmq_pop ::
  "call_env \<Rightarrow> mtmq option \<Rightarrow> c_int \<Rightarrow> (c_int \<times> mtmq_elt option \<times> mtmq option) result" where
  "mtmq_pop env qp timeout =
     (case qp of
        None \<Rightarrow> Returns (MTMQ_RC_ERROR, None, None)
      | Some q \<Rightarrow>
          if lock_rc env \<noteq> 0 then Returns (MTMQ_RC_ERROR, None, Some q)
          else
            (case (if timeout <s 0
                   then wait_rd (wakes env) 0 (q\<lparr>num_rd := num_rd q + 1\<rparr>)
                   else wait_rd (wakes env) 0 (q\<lparr>num_rd := num_rd q + 1\<rparr>)) of
               None \<Rightarrow> Blocks
             | Some (rc, q1) \<Rightarrow>
                 let q2 = q1\<lparr>num_rd := num_rd q1 - 1\<rparr> in
                 if num q2 \<noteq> 0 then
                   (if in_arr q2 (first q2) then
                      Returns (MTMQ_RC_OK, Some (arr q2 ! nat (sint (first q2))),
                        Some (q2\<lparr>first := (if first q2 + 1 <s size_q q2 then first q2 + 1 else 0),
                                 num := num q2 - 1\<rparr>))
                    else Undefined)
                 else if fin q2 \<noteq> 0 then Returns (MTMQ_RC_FINALIZED, None, Some q2)
                 else if rc = ETIMEDOUT then Returns (MTMQ_RC_TIMEDOUT, None, Some q2)
                 else if rc = EINTR then Returns (MTMQ_RC_INTERRUPTED, None, Some q2)
                 else Returns (MTMQ_RC_ERROR, None, Some q2)))"

subsection \<open>mtmq\_finalize and mtmq\_is\_finalized\<close>

text \<open>
  \<open>mtmq_finalize\<close> returns nothing; the result is the queue after the call. The return
  code of \<open>pthread_mutex_lock\<close> is not looked at here, and the broadcasts only wake other
  threads.
\<close>

definition mtmq_finalize :: "mtmq option \<Rightarrow> mtmq option" where
  "mtmq_finalize qp =
     (case qp of
        None \<Rightarrow> None
      | Some q \<Rightarrow> if fin q = 0 then Some (q\<lparr>fin := 1\<rparr>) else Some q)"

text \<open>\<open>mtmq_is_finalized\<close>: \<open>ret\<close> starts as 1 and is overwritten only for a non-NULL handle.\<close>

definition mtmq_is_finalized :: "mtmq option \<Rightarrow> c_int \<times> mtmq option" where
  "mtmq_is_finalized qp =
     (let ret = 1 in
      case qp of
        None \<Rightarrow> (ret, None)
      | Some q \<Rightarrow> (fin q, Some q))"

subsection \<open>calc\_abs\_timeout\<close>

text \<open>
  \<open>struct timespec\<close> is declared by the C library: \<open>tv_sec\<close> is a \<open>time_t\<close> and \<open>tv_nsec\<close> a
  \<open>long\<close>. Their widths are not fixed by the C sources of the queue, so the two field
  types are parameters, instantiated with words of the platform's widths.
\<close>

record ('s, 'n) timespec =
  tv_sec :: 's
  tv_nsec :: 'n

text \<open>C's \<open>/\<close> and \<open>%\<close> on signed integers truncate towards zero.\<close>

definition c_div :: "'a::len word \<Rightarrow> 'a word \<Rightarrow> 'a word" where
  "c_div a b = word_of_int (sint a sdiv sint b)"

definition c_mod :: "'a::len word \<Rightarrow> 'a word \<Rightarrow> 'a word" where
  "c_mod a b = word_of_int (sint a smod sint b)"

text \<open>
  \<open>calc_abs_timeout\<close>, with the time read by \<open>clock_gettime\<close> as the argument \<open>now\<close>. The
  \<open>int\<close> \<open>timeout_ms\<close> is sign-extended into the \<open>long\<close> \<open>t.tv_nsec\<close>; the quotient, a \<open>long\<close>,
  is converted to \<open>time_t\<close> for the addition to \<open>tv_sec\<close>. Arithmetic is two's complement
  in the width of each type: a signed overflow, which C leaves undefined, shows as
  wrap-around.
\<close>

definition calc_abs_timeout ::
  "('t::len word, 'l::len word) timespec \<Rightarrow> c_int \<Rightarrow> ('t word, 'l word) timespec" where
  "calc_abs_timeout now timeout_ms =
     (let t_nsec = (scast timeout_ms :: 'l word);
          t_nsec = t_nsec * 1000000;
          ts = now;
          ts = ts\<lparr>tv_nsec := tv_nsec ts + t_nsec\<rparr>;
          ts = ts\<lparr>tv_sec := tv_sec ts + scast (c_div (tv_nsec ts) 1000000000)\<rparr>;
          ts = ts\<lparr>tv_nsec := c_mod (tv_nsec ts) 1000000000\<rparr>
      in ts)"

subsection \<open>Ring invariant, buffered elements, sequential runs\<close>

text \<open>
  The invariant of a queue of capacity \<open>c\<close>: \<open>size\<close> is \<open>c\<close>, \<open>arr\<close> has \<open>c\<close> slots,
  \<open>0 \<le> num \<le> c\<close>, \<open>first\<close> and \<open>last\<close> lie in \<open>[0, c)\<close>, and \<open>num\<close> is congruent to
  \<open>last - first\<close> modulo \<open>c\<close>.
\<close>

definition mtmq_inv :: "c_int \<Rightarrow> mtmq \<Rightarrow> bool" where
  "mtmq_inv c q \<longleftrightarrow>
     size_q q = c \<and> length (arr q) = nat (sint c) \<and>
     0 \<le>s num q \<and> num q \<le>s c \<and>
     0 \<le>s first q \<and> first q <s c \<and>
     0 \<le>s last_q q \<and> last_q q <s c \<and>
     sint (num q) mod sint c = (sint (last_q q) - sint (first q)) mod sint c"

text \<open>The buffered elements, oldest first: \<open>num\<close> slots starting at \<open>first\<close>, wrapping at \<open>size\<close>.\<close>

definition contents :: "mtmq \<Rightarrow> mtmq_elt list" where
  "contents q =
     map (\<lambda>k. arr q ! ((nat (sint (first q)) + k) mod nat (sint (size_q q))))
       [0 ..< nat (sint (num q))]"

text \<open>No other thread touches the queue during the waits of a call.\<close>

definition quiet :: "call_env \<Rightarrow> bool" where
  "quiet env \<longleftrightarrow> list_all (\<lambda>w. snd w = None) (wakes env)"

text \<open>
  The queue as a sequence of wake-ups leaves it: each wake-up during which other threads
  changed the queue replaces it by the state they left.
\<close>

fun last_left :: "wake list \<Rightarrow> mtmq \<Rightarrow> mtmq" where
  "last_left [] q = q"
| "last_left ((rc, None) # ws) q = last_left ws q"
| "last_left ((rc, Some q') # ws) q = last_left ws q'"

text \<open>Every state in which other threads leave the queue during the waits satisfies \<open>P\<close>.\<close>

definition others_keep :: "(mtmq \<Rightarrow> bool) \<Rightarrow> call_env \<Rightarrow> bool" where
  "others_keep P env \<longleftrightarrow>
     list_all (\<lambda>w. case snd w of None \<Rightarrow> True | Some q' \<Rightarrow> P q') (wakes env)"

text \<open>
  A sequential client: a list of calls on one queue, each finished before the next
  starts. \<open>run\<close> collects, in call order, the element passed to every push that returned
  \<open>MTMQ_RC_OK\<close>, and for every pop that returned \<open>MTMQ_RC_OK\<close> what it stored through its
  output pointers (\<open>None\<close> if it stored nothing), and gives the final queue.
\<close>

datatype call = Push call_env c_int void_ptr c_int | Pop call_env c_int

fun env_of :: "call \<Rightarrow> call_env" where
  "env_of (Push env c d t) = env"
| "env_of (Pop env t) = env"

fun run ::
  "mtmq \<Rightarrow> call list \<Rightarrow> (mtmq_elt list \<times> mtmq_elt option list \<times> mtmq) result" where
  "run q [] = Returns ([], [], q)"
| "run q (Push env c d t # cs) =
     (case mtmq_push env (Some q) c d t of
        Returns (rc, Some q') \<Rightarrow>
          (case run q' cs of
             Returns (pushed, popped, qf) \<Rightarrow>
               Returns ((if rc = MTMQ_RC_OK then [\<lparr>code = c, data = d\<rparr>] else []) @ pushed,
                        popped, qf)
           | Blocks \<Rightarrow> Blocks
           | Undefined \<Rightarrow> Undefined)
      | Returns (rc, None) \<Rightarrow> Undefined
      | Blocks \<Rightarrow> Blocks
      | Undefined \<Rightarrow> Undefined)"
| "run q (Pop env t # cs) =
     (case mtmq_pop env (Some q) t of
        Returns (rc, out, Some q') \<Rightarrow>
          (case run q' cs of
             Returns (pushed, popped, qf) \<Rightarrow>
               Returns (pushed, (if rc = MTMQ_RC_OK then [out] else []) @ popped, qf)
           | Blocks \<Rightarrow> Blocks
           | Undefined \<Rightarrow> Undefined)
      | Returns (rc, out, None) \<Rightarrow> Undefined
      | Blocks \<Rightarrow> Blocks
      | Undefined \<Rightarrow> Undefined)"

text \<open>
  A consumer that pops repeatedly, one environment and timeout per call; the result
  lists what each pop returned.
\<close>

fun pops :: "mtmq \<Rightarrow> (call_env \<times> c_int) list \<Rightarrow> ((c_int \<times> mtmq_elt option) list \<times> mtmq) result" where
  "pops q [] = Returns ([], q)"
| "pops q ((env, t) # es) =
     (case mtmq_pop env (Some q) t of
        Returns (rc, out, Some q') \<Rightarrow>
          (case pops q' es of
             Returns (rs, qf) \<Rightarrow> Returns ((rc, out) # rs, qf)
           | Blocks \<Rightarrow> Blocks
           | Undefined \<Rightarrow> Undefined)
      | Returns (rc, out, None) \<Rightarrow> Undefined
      | Blocks \<Rightarrow> Blocks
      | Undefined \<Rightarrow> Undefined)"

subsection \<open>Example values\<close>

text \<open>
  Queues of capacity 2: as created, holding one element, full (wrapped around), full and
  finalized, empty after use; environments of calls; and a sequential client.
\<close>

definition ex_new :: mtmq where
  "ex_new = \<lparr>num_rd = 0, num_wr = 0, fin = 0, num = 0, first = 0, last_q = 0, size_q = 2,
              arr = [\<lparr>code = 0, data = 0\<rparr>, \<lparr>code = 0, data = 0\<rparr>]\<rparr>"

definition ex_half :: mtmq where
  "ex_half = \<lparr>num_rd = 0, num_wr = 0, fin = 0, num = 1, first = 0, last_q = 1, size_q = 2,
               arr = [\<lparr>code = 5, data = 0\<rparr>, \<lparr>code = 0, data = 0\<rparr>]\<rparr>"

definition ex_full :: mtmq where
  "ex_full = \<lparr>num_rd = 0, num_wr = 0, fin = 0, num = 2, first = 1, last_q = 1, size_q = 2,
               arr = [\<lparr>code = 6, data = 0\<rparr>, \<lparr>code = 5, data = 0\<rparr>]\<rparr>"

definition ex_fin :: mtmq where
  "ex_fin = \<lparr>num_rd = 0, num_wr = 0, fin = 1, num = 2, first = 1, last_q = 1, size_q = 2,
              arr = [\<lparr>code = 6, data = 0\<rparr>, \<lparr>code = 5, data = 0\<rparr>]\<rparr>"

definition ex_empty :: mtmq where
  "ex_empty = \<lparr>num_rd = 0, num_wr = 0, fin = 0, num = 0, first = 1, last_q = 1, size_q = 2,
                arr = [\<lparr>code = 6, data = 0\<rparr>, \<lparr>code = 5, data = 0\<rparr>]\<rparr>"

definition ex_used :: mtmq where
  "ex_used = \<lparr>num_rd = 0, num_wr = 0, fin = 0, num = 0, first = 0, last_q = 0, size_q = 2,
               arr = [\<lparr>code = 1, data = 0\<rparr>, \<lparr>code = 2, data = 0\<rparr>]\<rparr>"

text \<open>A call that is never woken, and one whose single wake-up is the expiry of its deadline.\<close>

definition ex_env :: call_env where
  "ex_env = \<lparr>lock_rc = 0, wakes = []\<rparr>"

definition ex_env_to :: call_env where
  "ex_env_to = \<lparr>lock_rc = 0, wakes = [(ETIMEDOUT, None)]\<rparr>"

text \<open>
  A producer woken once, after a consumer has taken one of the two elements of
  \<open>ex_full\<close> and put back one with code 5.
\<close>

definition ex_env_woken :: call_env where
  "ex_env_woken = \<lparr>lock_rc = 0, wakes = [(0, Some (ex_half\<lparr>num_wr := 1\<rparr>))]\<rparr>"

text \<open>A producer woken once, after another thread has finalized the full queue \<open>ex_full\<close>.\<close>

definition ex_env_fin :: call_env where
  "ex_env_fin = \<lparr>lock_rc = 0, wakes = [(0, Some (ex_full\<lparr>num_wr := 1, fin := 1\<rparr>))]\<rparr>"

text \<open>
  A client: an untimed and a timed push, a third push that times out on the full queue
  (\<open>ex_fill\<close>, leaving \<open>ex_filled\<close>); then an untimed and a timed pop, and a third pop
  that times out on the empty queue (\<open>ex_calls\<close>, leaving \<open>ex_used\<close>).
\<close>

definition ex_fill :: "call list" where
  "ex_fill = [Push ex_env 1 0 (- 1), Push ex_env 2 0 100, Push ex_env_to 3 0 100]"

definition ex_filled :: mtmq where
  "ex_filled = \<lparr>num_rd = 0, num_wr = 0, fin = 0, num = 2, first = 0, last_q = 0, size_q = 2,
                 arr = [\<lparr>code = 1, data = 0\<rparr>, \<lparr>code = 2, data = 0\<rparr>]\<rparr>"

definition ex_calls :: "call list" where
  "ex_calls = ex_fill @ [Pop ex_env (- 1), Pop ex_env 250, Pop ex_env_to 250]"

definition ex_pops :: "(call_env \<times> c_int) list" where
  "ex_pops = [(ex_env, - 1), (ex_env, 0), (ex_env, 250), (ex_env, - 1)]"

section \<open>Auxiliary lemmas\<close>

subsection \<open>The wait loops\<close>

lemma wait_wr_no_wait:
  "fin q \<noteq> 0 \<or> num q \<noteq> size_q q \<Longrightarrow> wait_wr ws 0 q = Some (0, q)"
  by (cases ws) auto

lemma wait_rd_no_wait:
  "num q \<noteq> 0 \<or> fin q \<noteq> 0 \<Longrightarrow> wait_rd ws 0 q = Some (0, q)"
  by (cases ws) auto

lemma wait_wr_quiet:
  "list_all (\<lambda>w. snd w = None) ws \<Longrightarrow> wait_wr ws rc q = Some (rc', q') \<Longrightarrow> q' = q"
  by (induction ws rc q rule: wait_wr.induct) (auto split: if_splits)

lemma wait_rd_quiet:
  "list_all (\<lambda>w. snd w = None) ws \<Longrightarrow> wait_rd ws rc q = Some (rc', q') \<Longrightarrow> q' = q"
  by (induction ws rc q rule: wait_rd.induct) (auto split: if_splits)

lemma wait_wr_keep:
  "P q \<Longrightarrow> list_all (\<lambda>w. case snd w of None \<Rightarrow> True | Some q' \<Rightarrow> P q') ws \<Longrightarrow>
   wait_wr ws rc q = Some (rc', q') \<Longrightarrow> P q'"
  by (induction ws rc q rule: wait_wr.induct) (auto split: if_splits option.splits)

lemma wait_rd_keep:
  "P q \<Longrightarrow> list_all (\<lambda>w. case snd w of None \<Rightarrow> True | Some q' \<Rightarrow> P q') ws \<Longrightarrow>
   wait_rd ws rc q = Some (rc', q') \<Longrightarrow> P q'"
  by (induction ws rc q rule: wait_rd.induct) (auto split: if_splits option.splits)

lemmas rc_defs = MTMQ_RC_OK_def MTMQ_RC_FINALIZED_def MTMQ_RC_TIMEDOUT_def
  MTMQ_RC_INTERRUPTED_def MTMQ_RC_ERROR_def

lemmas eval_defs = mtmq_push_def mtmq_pop_def mtmq_create_def mtmq_finalize_def
  mtmq_is_finalized_def Let_def in_arr_def rc_defs ETIMEDOUT_def EINTR_def
  word_sless_alt word_sle_eq quiet_def others_keep_def ex_env_def ex_env_to_def

subsection \<open>Calls during which no other thread touches the queue\<close>

lemma mtmq_push_quiet:
  assumes "quiet env" and "lock_rc env = 0"
  shows "mtmq_push env (Some q) c d timeout =
     (case wait_wr (wakes env) 0 (q\<lparr>num_wr := num_wr q + 1\<rparr>) of
        None \<Rightarrow> Blocks
      | Some (rc, q1) \<Rightarrow>
          if fin q \<noteq> 0 then Returns (MTMQ_RC_FINALIZED, Some q)
          else if num q <s size_q q then
            (if in_arr q (last_q q) then
               Returns (MTMQ_RC_OK,
                 Some (q\<lparr>arr := (arr q)[nat (sint (last_q q)) := \<lparr>code = c, data = d\<rparr>],
                         last_q := (if last_q q + 1 <s size_q q then last_q q + 1 else 0),
                         num := num q + 1\<rparr>))
             else Undefined)
          else if rc = ETIMEDOUT then Returns (MTMQ_RC_TIMEDOUT, Some q)
          else if rc = EINTR then Returns (MTMQ_RC_INTERRUPTED, Some q)
          else Returns (MTMQ_RC_ERROR, Some q))"
proof (cases "wait_wr (wakes env) 0 (q\<lparr>num_wr := num_wr q + 1\<rparr>)")
  case None
  then show ?thesis using assms by (simp add: mtmq_push_def)
next
  case (Some p)
  obtain rc q1 where p: "p = (rc, q1)" by (cases p)
  have q1: "q1 = q\<lparr>num_wr := num_wr q + 1\<rparr>"
    using wait_wr_quiet [of "wakes env" 0 _ rc q1] Some p assms(1) by (simp add: quiet_def)
  have undo: "q1\<lparr>num_wr := num_wr q1 - 1\<rparr> = q" by (simp add: q1)
  show ?thesis
    using assms(2) Some p by (simp add: mtmq_push_def Let_def undo in_arr_def) (simp add: q1)
qed

lemma mtmq_pop_quiet:
  assumes "quiet env" and "lock_rc env = 0"
  shows "mtmq_pop env (Some q) timeout =
     (case wait_rd (wakes env) 0 (q\<lparr>num_rd := num_rd q + 1\<rparr>) of
        None \<Rightarrow> Blocks
      | Some (rc, q1) \<Rightarrow>
          if num q \<noteq> 0 then
            (if in_arr q (first q) then
               Returns (MTMQ_RC_OK, Some (arr q ! nat (sint (first q))),
                 Some (q\<lparr>first := (if first q + 1 <s size_q q then first q + 1 else 0),
                         num := num q - 1\<rparr>))
             else Undefined)
          else if fin q \<noteq> 0 then Returns (MTMQ_RC_FINALIZED, None, Some q)
          else if rc = ETIMEDOUT then Returns (MTMQ_RC_TIMEDOUT, None, Some q)
          else if rc = EINTR then Returns (MTMQ_RC_INTERRUPTED, None, Some q)
          else Returns (MTMQ_RC_ERROR, None, Some q))"
proof (cases "wait_rd (wakes env) 0 (q\<lparr>num_rd := num_rd q + 1\<rparr>)")
  case None
  then show ?thesis using assms by (simp add: mtmq_pop_def)
next
  case (Some p)
  obtain rc q1 where p: "p = (rc, q1)" by (cases p)
  have q1: "q1 = q\<lparr>num_rd := num_rd q + 1\<rparr>"
    using wait_rd_quiet [of "wakes env" 0 _ rc q1] Some p assms(1) by (simp add: quiet_def)
  have undo: "q1\<lparr>num_rd := num_rd q1 - 1\<rparr> = q" by (simp add: q1)
  show ?thesis
    using assms(2) Some p by (simp add: mtmq_pop_def Let_def undo in_arr_def) (simp add: q1)
qed

lemma push_fail_unchanged:
  assumes "quiet env" and "mtmq_push env qp c d timeout = Returns (rc, qp')" and "rc \<noteq> MTMQ_RC_OK"
  shows "qp' = qp"
proof (cases qp)
  case None
  then show ?thesis using assms(2) by (simp add: mtmq_push_def)
next
  case (Some q)
  show ?thesis
  proof (cases "lock_rc env = 0")
    case False
    then show ?thesis using assms(2) Some by (simp add: mtmq_push_def)
  next
    case True
    show ?thesis
      using assms(2,3) unfolding Some mtmq_push_quiet [OF assms(1) True]
      by (auto split: option.splits if_splits)
  qed
qed

lemma pop_fail_unchanged:
  assumes "quiet env" and "mtmq_pop env qp timeout = Returns (rc, out, qp')" and "rc \<noteq> MTMQ_RC_OK"
  shows "qp' = qp \<and> out = None"
proof (cases qp)
  case None
  then show ?thesis using assms(2) by (simp add: mtmq_pop_def)
next
  case (Some q)
  show ?thesis
  proof (cases "lock_rc env = 0")
    case False
    then show ?thesis using assms(2) Some by (simp add: mtmq_pop_def)
  next
    case True
    show ?thesis
      using assms(2,3) unfolding Some mtmq_pop_quiet [OF assms(1) True]
      by (auto split: option.splits if_splits)
  qed
qed

subsection \<open>Failed calls while other threads run\<close>

lemma wait_wr_consumed:
  "wait_wr ws rc q = Some (rc', q') \<Longrightarrow> \<exists>k\<le>length ws. q' = last_left (take k ws) q"
proof (induction ws rc q rule: wait_wr.induct)
  case (1 rc q)
  then show ?case by (auto split: if_splits)
next
  case (2 rc1 others ws rc q)
  show ?case
  proof (cases "fin q = 0 \<and> num q = size_q q \<and> rc = 0")
    case False
    then have "q' = q" using "2.prems" by auto
    then show ?thesis by (intro exI [of _ 0]) simp
  next
    case True
    let ?q2 = "case others of None \<Rightarrow> q | Some q' \<Rightarrow> q'"
    have "wait_wr ws rc1 ?q2 = Some (rc', q')" using "2.prems" True by simp
    from "2.IH" [OF True this] obtain k where
      k: "k \<le> length ws" "q' = last_left (take k ws) ?q2" by blast
    show ?thesis
      using k by (intro exI [of _ "Suc k"]) (cases others; simp)
  qed
qed

lemma wait_rd_consumed:
  "wait_rd ws rc q = Some (rc', q') \<Longrightarrow> \<exists>k\<le>length ws. q' = last_left (take k ws) q"
proof (induction ws rc q rule: wait_rd.induct)
  case (1 rc q)
  then show ?case by (auto split: if_splits)
next
  case (2 rc1 others ws rc q)
  show ?case
  proof (cases "num q = 0 \<and> fin q = 0 \<and> rc = 0")
    case False
    then have "q' = q" using "2.prems" by auto
    then show ?thesis by (intro exI [of _ 0]) simp
  next
    case True
    let ?q2 = "case others of None \<Rightarrow> q | Some q' \<Rightarrow> q'"
    have "wait_rd ws rc1 ?q2 = Some (rc', q')" using "2.prems" True by simp
    from "2.IH" [OF True this] obtain k where
      k: "k \<le> length ws" "q' = last_left (take k ws) ?q2" by blast
    show ?thesis
      using k by (intro exI [of _ "Suc k"]) (cases others; simp)
  qed
qed

lemma push_fail_state:
  assumes "mtmq_push env (Some q) c d timeout = Returns (rc, qp')" and "rc \<noteq> MTMQ_RC_OK"
    and "lock_rc env = 0"
  shows "\<exists>rc1 q1 k. wait_wr (wakes env) 0 (q\<lparr>num_wr := num_wr q + 1\<rparr>) = Some (rc1, q1) \<and>
           k \<le> length (wakes env) \<and>
           q1 = last_left (take k (wakes env)) (q\<lparr>num_wr := num_wr q + 1\<rparr>) \<and>
           qp' = Some (q1\<lparr>num_wr := num_wr q1 - 1\<rparr>)"
proof -
  let ?w = "wait_wr (wakes env) 0 (q\<lparr>num_wr := num_wr q + 1\<rparr>)"
  from assms(1,3) obtain rc1 q1 where w: "?w = Some (rc1, q1)"
    by (cases ?w) (auto simp: mtmq_push_def)
  from wait_wr_consumed [OF w] obtain k where
    "k \<le> length (wakes env)" "q1 = last_left (take k (wakes env)) (q\<lparr>num_wr := num_wr q + 1\<rparr>)"
    by blast
  moreover have "qp' = Some (q1\<lparr>num_wr := num_wr q1 - 1\<rparr>)"
    using assms w by (auto simp: mtmq_push_def Let_def split: if_splits)
  ultimately show ?thesis using w by blast
qed

lemma pop_fail_state:
  assumes "mtmq_pop env (Some q) timeout = Returns (rc, out, qp')" and "rc \<noteq> MTMQ_RC_OK"
    and "lock_rc env = 0"
  shows "\<exists>rc1 q1 k. wait_rd (wakes env) 0 (q\<lparr>num_rd := num_rd q + 1\<rparr>) = Some (rc1, q1) \<and>
           k \<le> length (wakes env) \<and>
           q1 = last_left (take k (wakes env)) (q\<lparr>num_rd := num_rd q + 1\<rparr>) \<and>
           qp' = Some (q1\<lparr>num_rd := num_rd q1 - 1\<rparr>)"
proof -
  let ?w = "wait_rd (wakes env) 0 (q\<lparr>num_rd := num_rd q + 1\<rparr>)"
  from assms(1,3) obtain rc1 q1 where w: "?w = Some (rc1, q1)"
    by (cases ?w) (auto simp: mtmq_pop_def)
  from wait_rd_consumed [OF w] obtain k where
    "k \<le> length (wakes env)" "q1 = last_left (take k (wakes env)) (q\<lparr>num_rd := num_rd q + 1\<rparr>)"
    by blast
  moreover have "qp' = Some (q1\<lparr>num_rd := num_rd q1 - 1\<rparr>)"
    using assms w by (auto simp: mtmq_pop_def Let_def split: if_splits)
  ultimately show ?thesis using w by blast
qed

lemma fail_no_lock:
  "qp = None \<or> lock_rc env \<noteq> 0 \<Longrightarrow> mtmq_push env qp c d timeout = Returns (rc, qp') \<Longrightarrow> qp' = qp"
  "qp = None \<or> lock_rc env \<noteq> 0 \<Longrightarrow> mtmq_pop env qp timeout = Returns (rc, out, qp')
     \<Longrightarrow> qp' = qp \<and> out = None"
  by (cases qp; auto simp: mtmq_push_def mtmq_pop_def)+

lemma pop_fail_out:
  assumes "mtmq_pop env qp timeout = Returns (rc, out, qp')" and "rc \<noteq> MTMQ_RC_OK"
  shows "out = None"
proof (cases "qp = None \<or> lock_rc env \<noteq> 0")
  case True
  then show ?thesis using fail_no_lock(2) assms(1) by blast
next
  case False
  then obtain q where q: "qp = Some q" and lk: "lock_rc env = 0" by auto
  show ?thesis
    using assms lk unfolding q
    by (auto simp: mtmq_pop_def Let_def split: option.splits if_splits)
qed

subsection \<open>Signed arithmetic and the ring\<close>

lemma sint_inc:
  fixes x y :: c_int
  assumes "sint x < sint y"
  shows "sint (x + 1) = sint x + 1"
proof -
  have "sint y < 2 ^ 31" using sint_lt [of y] by simp
  moreover have "- (2 ^ 31) \<le> sint x" using sint_ge [of x] by simp
  ultimately have "signed_take_bit 31 (sint x + 1) = sint x + 1"
    using assms by (intro signed_take_bit_int_eq_self) auto
  then show ?thesis by (simp add: sint_word_ariths)
qed

lemma sint_dec:
  fixes x y :: c_int
  assumes "sint y < sint x"
  shows "sint (x - 1) = sint x - 1"
proof -
  have "sint x < 2 ^ 31" using sint_lt [of x] by simp
  moreover have "- (2 ^ 31) \<le> sint y" using sint_ge [of y] by simp
  ultimately have "signed_take_bit 31 (sint x - 1) = sint x - 1"
    using assms by (intro signed_take_bit_int_eq_self) auto
  then show ?thesis by (simp add: sint_word_ariths)
qed

lemma sint_eq_0_iff: "sint (x::c_int) = 0 \<longleftrightarrow> x = 0"
  using signed_eq_0_iff [of x, where ?'a = int] by simp

lemma ring_push:
  fixes xs :: "'a list"
  assumes "k < n" and "length xs = n"
  shows "map (\<lambda>j. xs[(f + k) mod n := e] ! ((f + j) mod n)) [0..<Suc k] =
         map (\<lambda>j. xs ! ((f + j) mod n)) [0..<k] @ [e]"
proof -
  have diff: "(f + j) mod n \<noteq> (f + k) mod n" if "j < k" for j
  proof
    assume eq: "(f + j) mod n = (f + k) mod n"
    have "n dvd (f + k) - (f + j)"
      using eq that by (subst mod_eq_dvd_iff_nat [symmetric]) auto
    then have "n dvd k - j" by simp
    moreover have "0 < k - j" "k - j < n" using that assms(1) by auto
    ultimately show False using nat_dvd_not_less by blast
  qed
  have "n > 0" using assms(1) by simp
  then have last: "xs[(f + k) mod n := e] ! ((f + k) mod n) = e"
    using assms(2) by simp
  have "map (\<lambda>j. xs[(f + k) mod n := e] ! ((f + j) mod n)) [0..<k] =
        map (\<lambda>j. xs ! ((f + j) mod n)) [0..<k]"
    using diff by (intro map_cong) (auto simp: nth_list_update_neq [OF not_sym])
  then show ?thesis using last by simp
qed

lemma ring_pop:
  fixes xs :: "'a list"
  assumes "0 < k" and "f < n"
  shows "map (\<lambda>j. xs ! ((f + j) mod n)) [0..<k] =
         xs ! f # map (\<lambda>j. xs ! (((f + 1) mod n + j) mod n)) [0..<k - 1]"
proof -
  have "[0..<k] = 0 # map Suc [0..<k - 1]"
    using assms(1) by (metis Suc_pred' map_Suc_upt upt_conv_Cons)
  moreover have "(f + Suc j) mod n = ((f + 1) mod n + j) mod n" for j
    by (simp add: mod_add_left_eq)
  ultimately show ?thesis using assms(2) by (simp add: comp_def del: upt_Suc)
qed


lemma mtmq_invD:
  assumes "mtmq_inv c q"
  shows "size_q q = c" and "length (arr q) = nat (sint c)"
    and "0 \<le> sint (num q)" and "sint (num q) \<le> sint c"
    and "0 \<le> sint (first q)" and "sint (first q) < sint c"
    and "0 \<le> sint (last_q q)" and "sint (last_q q) < sint c"
    and "(sint (first q) + sint (num q)) mod sint c = sint (last_q q)"
proof -
  show b: "size_q q = c" "length (arr q) = nat (sint c)"
    "0 \<le> sint (num q)" "sint (num q) \<le> sint c"
    "0 \<le> sint (first q)" "sint (first q) < sint c"
    "0 \<le> sint (last_q q)" "sint (last_q q) < sint c"
    using assms by (simp_all add: mtmq_inv_def word_sle_eq word_sless_alt)
  have "sint (num q) mod sint c = (sint (last_q q) - sint (first q)) mod sint c"
    using assms by (simp add: mtmq_inv_def)
  then have "(sint (first q) + sint (num q)) mod sint c
               = (sint (first q) + (sint (last_q q) - sint (first q))) mod sint c"
    by (metis mod_add_right_eq)
  then show "(sint (first q) + sint (num q)) mod sint c = sint (last_q q)"
    using b by simp
qed

lemma mtmq_inv_tail:
  assumes "mtmq_inv c q"
  shows "nat (sint (last_q q)) = (nat (sint (first q)) + nat (sint (num q))) mod nat (sint c)"
proof -
  note d = mtmq_invD [OF assms]
  have "nat (sint (last_q q)) = nat ((sint (first q) + sint (num q)) mod sint c)"
    using d(9) by simp
  also have "\<dots> = (nat (sint (first q)) + nat (sint (num q))) mod nat (sint c)"
    using d(3,5,6) by (simp add: nat_mod_distrib nat_add_distrib)
  finally show ?thesis .
qed

lemma next_index:
  fixes i c :: c_int
  assumes "0 \<le> sint i" and "sint i < sint c"
  shows "sint (if i + 1 <s c then i + 1 else 0) = (sint i + 1) mod sint c"
    and "nat (sint (if i + 1 <s c then i + 1 else 0)) = (nat (sint i) + 1) mod nat (sint c)"
proof -
  have s: "sint (i + 1) = sint i + 1" using assms(2) by (rule sint_inc)
  show a: "sint (if i + 1 <s c then i + 1 else 0) = (sint i + 1) mod sint c"
  proof (cases "sint i + 1 < sint c")
    case True
    then show ?thesis using assms by (simp add: word_sless_alt s)
  next
    case False
    then have "sint i + 1 = sint c" using assms by simp
    then show ?thesis using False by (simp add: word_sless_alt s)
  qed
  have "nat ((sint i + 1) mod sint c) = (nat (sint i) + 1) mod nat (sint c)"
    using assms by (simp add: nat_mod_distrib nat_add_distrib)
  then show "nat (sint (if i + 1 <s c then i + 1 else 0)) = (nat (sint i) + 1) mod nat (sint c)"
    using a by simp
qed

lemma push_step:
  fixes e :: mtmq_elt
  assumes inv: "mtmq_inv c q" and room: "num q <s size_q q"
  defines "q' \<equiv> q\<lparr>arr := (arr q)[nat (sint (last_q q)) := e],
                    last_q := (if last_q q + 1 <s size_q q then last_q q + 1 else 0),
                    num := num q + 1\<rparr>"
  shows "in_arr q (last_q q)" and "mtmq_inv c q'" and "contents q' = contents q @ [e]"
proof -
  note d = mtmq_invD [OF inv]
  have lt: "sint (num q) < sint c" using room d(1) by (simp add: word_sless_alt)
  have n1: "sint (num q + 1) = sint (num q) + 1" using lt by (rule sint_inc)
  note nx = next_index [OF d(7,8)]
  define l' where "l' = (if last_q q + 1 <s size_q q then last_q q + 1 else 0)"
  have q': "q' = q\<lparr>arr := (arr q)[nat (sint (last_q q)) := e], last_q := l', num := num q + 1\<rparr>"
    by (simp add: q'_def l'_def)
  have sl: "sint l' = (sint (last_q q) + 1) mod sint c"
    using nx(1) d(1) by (simp add: l'_def)
  show "in_arr q (last_q q)"
    using d by (simp add: in_arr_def word_sle_eq)
  have "(sint (num q) + 1) mod sint c = ((sint (last_q q) + 1) mod sint c  - sint (first q)) mod sint c"
  proof -
    have "((sint (last_q q) + 1) mod sint c - sint (first q)) mod sint c
            = ((sint (last_q q) - sint (first q)) + 1) mod sint c"
      by (simp add: mod_diff_left_eq algebra_simps)
    also have "\<dots> = ((sint (last_q q) - sint (first q)) mod sint c + 1) mod sint c"
      by (simp add: mod_add_left_eq)
    also have "\<dots> = (sint (num q) mod sint c + 1) mod sint c"
      using inv by (simp add: mtmq_inv_def)
    also have "\<dots> = (sint (num q) + 1) mod sint c"
      by (simp add: mod_add_left_eq)
    finally show ?thesis by simp
  qed
  moreover have "0 \<le> (sint (last_q q) + 1) mod sint c" "(sint (last_q q) + 1) mod sint c < sint c"
    using d by auto
  ultimately show "mtmq_inv c q'"
    using d lt unfolding q'
    by (simp add: mtmq_inv_def word_sle_eq word_sless_alt n1 sl)
  have k: "nat (sint (num q)) < nat (sint c)" using lt d by simp
  have "contents q' =
        map (\<lambda>j. (arr q)[(nat (sint (first q)) + nat (sint (num q))) mod nat (sint c) := e]
                    ! ((nat (sint (first q)) + j) mod nat (sint c)))
          [0..<Suc (nat (sint (num q)))]"
    using d(1,3) unfolding q'
    by (simp add: contents_def n1 mtmq_inv_tail [OF inv] nat_add_distrib del: upt_Suc)
  also have "\<dots> = contents q @ [e]"
    using ring_push [OF k d(2)] d(1) by (simp add: contents_def)
  finally show "contents q' = contents q @ [e]" .
qed

lemma pop_step:
  assumes inv: "mtmq_inv c q" and some: "num q \<noteq> 0"
  defines "q' \<equiv> q\<lparr>first := (if first q + 1 <s size_q q then first q + 1 else 0),
                    num := num q - 1\<rparr>"
  shows "in_arr q (first q)" and "mtmq_inv c q'"
    and "contents q = arr q ! nat (sint (first q)) # contents q'"
proof -
  note d = mtmq_invD [OF inv]
  have pos: "0 < sint (num q)" using some d(3) by (simp add: sint_eq_0_iff order_less_le)
  have n1: "sint (num q - 1) = sint (num q) - 1"
    using sint_dec [of 0 "num q"] pos by simp
  note nx = next_index [OF d(5,6)]
  define f' where "f' = (if first q + 1 <s size_q q then first q + 1 else 0)"
  have q': "q' = q\<lparr>first := f', num := num q - 1\<rparr>"
    by (simp add: q'_def f'_def)
  have sf: "sint f' = (sint (first q) + 1) mod sint c"
    using nx(1) d(1) by (simp add: f'_def)
  have nf: "nat (sint f') = (nat (sint (first q)) + 1) mod nat (sint c)"
    using nx(2) d(1) by (simp add: f'_def)
  show "in_arr q (first q)"
    using d by (simp add: in_arr_def word_sle_eq)
  have "(sint (num q) - 1) mod sint c = (sint (last_q q) - (sint (first q) + 1) mod sint c) mod sint c"
  proof -
    have "(sint (last_q q) - (sint (first q) + 1) mod sint c) mod sint c
            = ((sint (last_q q) - sint (first q)) - 1) mod sint c"
      by (simp add: mod_diff_right_eq algebra_simps)
    also have "\<dots> = ((sint (last_q q) - sint (first q)) mod sint c - 1) mod sint c"
      by (simp add: mod_diff_left_eq)
    also have "\<dots> = (sint (num q) mod sint c - 1) mod sint c"
      using inv by (simp add: mtmq_inv_def)
    also have "\<dots> = (sint (num q) - 1) mod sint c"
      by (simp add: mod_diff_left_eq)
    finally show ?thesis by simp
  qed
  moreover have "0 \<le> (sint (first q) + 1) mod sint c" "(sint (first q) + 1) mod sint c < sint c"
    using d by auto
  ultimately show "mtmq_inv c q'"
    using d pos unfolding q'
    by (simp add: mtmq_inv_def word_sle_eq word_sless_alt n1 sf)
  have f: "nat (sint (first q)) < nat (sint c)" using d by simp
  have k: "0 < nat (sint (num q))" using pos by simp
  have k1: "nat (sint (num q) - 1) = nat (sint (num q)) - 1" using pos by simp
  have "contents q' =
        map (\<lambda>j. arr q ! (((nat (sint (first q)) + 1) mod nat (sint c) + j) mod nat (sint c)))
          [0..<nat (sint (num q)) - 1]"
    using d(1) unfolding q'
    by (simp add: contents_def n1 nf k1)
  then show "contents q = arr q ! nat (sint (first q)) # contents q'"
    using ring_pop [OF k f, of "arr q"] d(1) by (simp add: contents_def)
qed

subsection \<open>The invariant under the operations\<close>

lemma mtmq_inv_cong [simp]:
  "mtmq_inv c (q\<lparr>num_wr := x\<rparr>) = mtmq_inv c q"
  "mtmq_inv c (q\<lparr>num_rd := x\<rparr>) = mtmq_inv c q"
  "mtmq_inv c (q\<lparr>fin := y\<rparr>) = mtmq_inv c q"
  by (simp_all add: mtmq_inv_def)

lemma contents_cong [simp]:
  "contents (q\<lparr>num_wr := x\<rparr>) = contents q"
  "contents (q\<lparr>num_rd := x\<rparr>) = contents q"
  "contents (q\<lparr>fin := y\<rparr>) = contents q"
  by (simp_all add: contents_def)

lemma mtmq_create_inv:
  assumes "1 \<le>s c" and "mtmq_create env c = Some q"
  shows "mtmq_inv c q" and "contents q = []" and "fin q = 0"
  using assms
  by (auto simp: mtmq_create_def mtmq_inv_def contents_def word_sle_eq word_sless_alt Let_def
      split: if_splits)

lemma push_keeps_inv:
  assumes inv: "mtmq_inv c q" and oth: "others_keep (mtmq_inv c) env"
  shows "mtmq_push env (Some q) cd d timeout \<noteq> Undefined"
    and "mtmq_push env (Some q) cd d timeout = Returns (rc, qp') \<Longrightarrow> \<exists>q'. qp' = Some q' \<and> mtmq_inv c q'"
proof -
  let ?w = "wait_wr (wakes env) 0 (q\<lparr>num_wr := num_wr q + 1\<rparr>)"
  have w: "mtmq_inv c q1" if "?w = Some (rc1, q1)" for rc1 q1
    using wait_wr_keep [of "mtmq_inv c", OF _ _ that] inv oth by (simp add: others_keep_def)
  show "mtmq_push env (Some q) cd d timeout \<noteq> Undefined"
  proof (cases ?w)
    case None
    then show ?thesis by (simp add: mtmq_push_def)
  next
    case (Some p)
    obtain rc1 q1 where p: "p = (rc1, q1)" by (cases p)
    have i: "mtmq_inv c (q1\<lparr>num_wr := num_wr q1 - 1\<rparr>)" using w Some p by simp
    show ?thesis
      using Some p push_step(1) [OF i] by (simp add: mtmq_push_def Let_def)
  qed
  assume r: "mtmq_push env (Some q) cd d timeout = Returns (rc, qp')"
  show "\<exists>q'. qp' = Some q' \<and> mtmq_inv c q'"
  proof (cases "lock_rc env = 0")
    case False
    then show ?thesis using r inv by (auto simp: mtmq_push_def)
  next
    case True
    then obtain rc1 q1 where s: "?w = Some (rc1, q1)"
      using r by (cases ?w) (auto simp: mtmq_push_def)
    have i: "mtmq_inv c (q1\<lparr>num_wr := num_wr q1 - 1\<rparr>)" using w s by simp
    show ?thesis
      using r True s i push_step(2) [OF i]
      by (auto simp: mtmq_push_def Let_def split: if_splits)
  qed
qed

lemma pop_keeps_inv:
  assumes inv: "mtmq_inv c q" and oth: "others_keep (mtmq_inv c) env"
  shows "mtmq_pop env (Some q) timeout \<noteq> Undefined"
    and "mtmq_pop env (Some q) timeout = Returns (rc, out, qp') \<Longrightarrow> \<exists>q'. qp' = Some q' \<and> mtmq_inv c q'"
proof -
  let ?w = "wait_rd (wakes env) 0 (q\<lparr>num_rd := num_rd q + 1\<rparr>)"
  have w: "mtmq_inv c q1" if "?w = Some (rc1, q1)" for rc1 q1
    using wait_rd_keep [of "mtmq_inv c", OF _ _ that] inv oth by (simp add: others_keep_def)
  show "mtmq_pop env (Some q) timeout \<noteq> Undefined"
  proof (cases ?w)
    case None
    then show ?thesis by (simp add: mtmq_pop_def)
  next
    case (Some p)
    obtain rc1 q1 where p: "p = (rc1, q1)" by (cases p)
    have i: "mtmq_inv c (q1\<lparr>num_rd := num_rd q1 - 1\<rparr>)" using w Some p by simp
    show ?thesis
      using Some p pop_step(1) [OF i] by (simp add: mtmq_pop_def Let_def)
  qed
  assume r: "mtmq_pop env (Some q) timeout = Returns (rc, out, qp')"
  show "\<exists>q'. qp' = Some q' \<and> mtmq_inv c q'"
  proof (cases "lock_rc env = 0")
    case False
    then show ?thesis using r inv by (auto simp: mtmq_pop_def)
  next
    case True
    then obtain rc1 q1 where s: "?w = Some (rc1, q1)"
      using r by (cases ?w) (auto simp: mtmq_pop_def)
    have i: "mtmq_inv c (q1\<lparr>num_rd := num_rd q1 - 1\<rparr>)" using w s by simp
    show ?thesis
      using r True s i pop_step(2) [OF i]
      by (auto simp: mtmq_pop_def Let_def split: if_splits)
  qed
qed

lemma push_keeps_fin:
  assumes "fin q \<noteq> 0" and "mtmq_push env (Some q) cd d timeout = Returns (rc, qp')"
  shows "\<exists>q'. qp' = Some q' \<and> fin q' = fin q"
  using assms by (auto simp: mtmq_push_def wait_wr_no_wait Let_def split: if_splits)

lemma pop_keeps_fin:
  assumes "fin q \<noteq> 0" and "mtmq_pop env (Some q) timeout = Returns (rc, out, qp')"
  shows "\<exists>q'. qp' = Some q' \<and> fin q' = fin q"
  using assms by (auto simp: mtmq_pop_def wait_rd_no_wait Let_def split: if_splits)

subsection \<open>Buffered elements under sequential calls\<close>

lemma push_seq:
  assumes inv: "mtmq_inv c q" and qu: "quiet env"
    and r: "mtmq_push env (Some q) cd d timeout = Returns (rc, qp')"
  shows "\<exists>q'. qp' = Some q' \<and> mtmq_inv c q' \<and> fin q' = fin q \<and>
           contents q' = contents q @ (if rc = MTMQ_RC_OK then [\<lparr>code = cd, data = d\<rparr>] else [])"
proof (cases "lock_rc env = 0")
  case False
  then show ?thesis using r inv by (auto simp: mtmq_push_def rc_defs)
next
  case True
  note ps = push_step(2,3) [OF inv, where e = "\<lparr>code = cd, data = d\<rparr>"]
  show ?thesis
    using r inv ps unfolding mtmq_push_quiet [OF qu True]
    by (auto simp: rc_defs split: option.splits if_splits)
qed

lemma pop_seq:
  assumes inv: "mtmq_inv c q" and qu: "quiet env"
    and r: "mtmq_pop env (Some q) timeout = Returns (rc, out, qp')"
  shows "\<exists>q'. qp' = Some q' \<and> mtmq_inv c q' \<and> fin q' = fin q \<and>
           map Some (contents q) = (if rc = MTMQ_RC_OK then [out] else []) @ map Some (contents q')"
proof (cases "lock_rc env = 0")
  case False
  then show ?thesis using r inv by (auto simp: mtmq_pop_def rc_defs)
next
  case True
  note ps = pop_step [OF inv]
  show ?thesis
    using r inv ps(2,3) unfolding mtmq_pop_quiet [OF qu True]
    by (auto simp: rc_defs split: option.splits if_splits)
qed

lemma run_fifo:
  assumes "mtmq_inv c q" and "list_all (\<lambda>x. quiet (env_of x)) cs"
    and "run q cs = Returns (pushed, popped, qf)"
  shows "map Some (contents q) @ map Some pushed = popped @ map Some (contents qf) \<and>
         mtmq_inv c qf \<and> fin qf = fin q"
  using assms
proof (induction cs arbitrary: q pushed popped)
  case Nil
  then show ?case by simp
next
  case (Cons x cs)
  show ?case
  proof (cases x)
    case (Push env cd d t)
    from Cons.prems(3) obtain rc q1 where
      p: "mtmq_push env (Some q) cd d t = Returns (rc, Some q1)"
      unfolding Push by (auto split: result.splits option.splits prod.splits)
    from Cons.prems(3) p obtain pu where
      r: "run q1 cs = Returns (pu, popped, qf)"
      and pu: "pushed = (if rc = MTMQ_RC_OK then [\<lparr>code = cd, data = d\<rparr>] else []) @ pu"
      unfolding Push by (auto split: result.splits)
    have qu: "quiet env" using Cons.prems(2) Push by simp
    from push_seq [OF Cons.prems(1) qu p]
    have i: "mtmq_inv c q1" and f: "fin q1 = fin q"
      and c1: "contents q1 = contents q @ (if rc = MTMQ_RC_OK then [\<lparr>code = cd, data = d\<rparr>] else [])"
      by auto
    have "map Some (contents q1) @ map Some pu = popped @ map Some (contents qf) \<and>
          mtmq_inv c qf \<and> fin qf = fin q1"
      using Cons.IH [OF i _ r] Cons.prems(2) by simp
    then show ?thesis using c1 pu f by simp
  next
    case (Pop env t)
    from Cons.prems(3) obtain rc out q1 where
      p: "mtmq_pop env (Some q) t = Returns (rc, out, Some q1)"
      unfolding Pop by (auto split: result.splits option.splits prod.splits)
    from Cons.prems(3) p obtain po where
      r: "run q1 cs = Returns (pushed, po, qf)"
      and po: "popped = (if rc = MTMQ_RC_OK then [out] else []) @ po"
      unfolding Pop by (auto split: result.splits)
    have qu: "quiet env" using Cons.prems(2) Pop by simp
    from pop_seq [OF Cons.prems(1) qu p]
    have i: "mtmq_inv c q1" and f: "fin q1 = fin q"
      and c1: "map Some (contents q) = (if rc = MTMQ_RC_OK then [out] else []) @ map Some (contents q1)"
      by auto
    have "map Some (contents q1) @ map Some pushed = po @ map Some (contents qf) \<and>
          mtmq_inv c qf \<and> fin qf = fin q1"
      using Cons.IH [OF i _ r] Cons.prems(2) by simp
    then show ?thesis using c1 po f by simp
  qed
qed

lemma push_room:
  assumes inv: "mtmq_inv c q" and nf: "fin q = 0" and room: "num q <s size_q q"
    and lk: "lock_rc env = 0"
  shows "mtmq_push env (Some q) cd d timeout =
           Returns (MTMQ_RC_OK,
             Some (q\<lparr>arr := (arr q)[nat (sint (last_q q)) := \<lparr>code = cd, data = d\<rparr>],
                     last_q := (if last_q q + 1 <s size_q q then last_q q + 1 else 0),
                     num := num q + 1\<rparr>))"
proof -
  have "num q \<noteq> size_q q" using room by (auto simp: word_sless_alt)
  then have w: "wait_wr (wakes env) 0 (q\<lparr>num_wr := num_wr q + 1\<rparr>)
                  = Some (0, q\<lparr>num_wr := num_wr q + 1\<rparr>)"
    by (simp add: wait_wr_no_wait)
  have "in_arr q (last_q q)" using push_step(1) [OF inv room] .
  then show ?thesis
    using lk nf room w by (simp add: mtmq_push_def Let_def in_arr_def)
qed

lemma contents_empty_iff:
  assumes "mtmq_inv c q"
  shows "contents q = [] \<longleftrightarrow> num q = 0"
  using mtmq_invD(3) [OF assms] by (auto simp: contents_def sint_eq_0_iff [symmetric])

lemma pop_nonempty:
  assumes inv: "mtmq_inv c q" and some: "num q \<noteq> 0" and lk: "lock_rc env = 0"
  shows "mtmq_pop env (Some q) timeout =
           Returns (MTMQ_RC_OK, Some (hd (contents q)),
             Some (q\<lparr>first := (if first q + 1 <s size_q q then first q + 1 else 0),
                     num := num q - 1\<rparr>))"
proof -
  have w: "wait_rd (wakes env) 0 (q\<lparr>num_rd := num_rd q + 1\<rparr>) = Some (0, q\<lparr>num_rd := num_rd q + 1\<rparr>)"
    using some by (simp add: wait_rd_no_wait)
  note ps = pop_step [OF inv some]
  have "in_arr q (first q)" by (rule ps(1))
  then show ?thesis
    using lk some w ps(3) by (simp add: mtmq_pop_def Let_def in_arr_def)
qed

lemma pop_finalized_empty:
  assumes "fin q \<noteq> 0" and "num q = 0" and "lock_rc env = 0"
  shows "mtmq_pop env (Some q) timeout = Returns (MTMQ_RC_FINALIZED, None, Some q)"
  using assms by (simp add: mtmq_pop_def wait_rd_no_wait Let_def)

lemma pops_finalized:
  assumes "mtmq_inv c q" and "fin q \<noteq> 0" and "list_all (\<lambda>x. lock_rc (fst x) = 0) es"
  shows "\<exists>qf. pops q es =
           Returns (map (\<lambda>x. (MTMQ_RC_OK, Some x)) (take (length es) (contents q)) @
                    replicate (length es - length (contents q)) (MTMQ_RC_FINALIZED, None), qf)"
  using assms
proof (induction es arbitrary: q)
  case Nil
  then show ?case by simp
next
  case (Cons a es)
  obtain env t where a: "a = (env, t)" by (cases a)
  have lk: "lock_rc env = 0" using Cons.prems(3) a by simp
  show ?case
  proof (cases "num q = 0")
    case True
    then have e: "contents q = []" using contents_empty_iff [OF Cons.prems(1)] by simp
    from Cons.IH [OF Cons.prems(1,2)] Cons.prems(3) obtain qf where
      "pops q es = Returns (map (\<lambda>x. (MTMQ_RC_OK, Some x)) (take (length es) (contents q)) @
                    replicate (length es - length (contents q)) (MTMQ_RC_FINALIZED, None), qf)"
      by auto
    then show ?thesis
      using pop_finalized_empty [OF Cons.prems(2) True lk] e a by simp
  next
    case False
    let ?q' = "q\<lparr>first := (if first q + 1 <s size_q q then first q + 1 else 0), num := num q - 1\<rparr>"
    note ps = pop_step [OF Cons.prems(1) False]
    have f: "fin ?q' \<noteq> 0" using Cons.prems(2) by simp
    from Cons.IH [OF ps(2) f] Cons.prems(3) obtain qf where
      "pops ?q' es = Returns (map (\<lambda>x. (MTMQ_RC_OK, Some x)) (take (length es) (contents ?q')) @
                    replicate (length es - length (contents ?q')) (MTMQ_RC_FINALIZED, None), qf)"
      by auto
    then show ?thesis
      using pop_nonempty [OF Cons.prems(1) False lk] ps(3) a by simp
  qed
qed

subsection \<open>The deadline computation\<close>

lemma sint_in_range:
  fixes k :: int
  assumes "- (2 ^ (LENGTH('a::len) - 1)) \<le> k" and "k < 2 ^ (LENGTH('a) - 1)"
  shows "sint (word_of_int k :: 'a word) = k"
  using assms by (simp add: sint_sbintrunc' signed_take_bit_int_eq_self)

lemma calc_abs_timeout_fields:
  fixes now :: "('t::len word, 'l::len word) timespec"
  assumes wide: "52 \<le> LENGTH('l)"
    and t: "0 \<le> sint timeout_ms"
    and ns: "0 \<le> sint (tv_nsec now)" "sint (tv_nsec now) < 1000000000"
    and fits: "sint (tv_sec now) + (sint (tv_nsec now) + sint timeout_ms * 1000000) div 1000000000
                 < 2 ^ (LENGTH('t) - 1)"
  shows "sint (tv_nsec (calc_abs_timeout now timeout_ms))
           = (sint (tv_nsec now) + sint timeout_ms * 1000000) mod 1000000000"
    and "sint (tv_sec (calc_abs_timeout now timeout_ms))
           = sint (tv_sec now) + (sint (tv_nsec now) + sint timeout_ms * 1000000) div 1000000000"
proof -
  define N where "N = sint (tv_nsec now) + sint timeout_ms * 1000000"
  have tl: "sint timeout_ms < 2 ^ 31" using sint_lt [of timeout_ms] by simp
  have N0: "0 \<le> N" using t ns by (simp add: N_def)
  have "(2::int) ^ 51 \<le> 2 ^ (LENGTH('l) - 1)"
    using wide by (intro power_increasing) auto
  then have big: "(2251799813685248::int) \<le> 2 ^ (LENGTH('l) - 1)" by simp
  have Nlt: "N < 2251799813685248" using tl ns by (simp add: N_def)
  have rng: "- (2 ^ (LENGTH('l) - 1)) \<le> k \<and> k < 2 ^ (LENGTH('l) - 1)"
    if "0 \<le> k" "k \<le> N" for k
    using that Nlt big by linarith
  have sc: "(scast timeout_ms :: 'l word) = word_of_int (sint timeout_ms)"
    by (rule scast_eq)
  have n1: "tv_nsec now + scast timeout_ms * 1000000 = (word_of_int N :: 'l word)"
    unfolding sc by (simp add: N_def)
  have sN: "sint (word_of_int N :: 'l word) = N"
    using rng [of N] N0 by (intro sint_in_range) auto
  have sB: "signed_take_bit (LENGTH('l) - Suc 0) (1000000000::int) = 1000000000"
    using big by (intro signed_take_bit_int_eq_self) auto
  have dv: "N sdiv 1000000000 = N div 1000000000" and md: "N smod 1000000000 = N mod 1000000000"
    using N0 by (simp_all add: signed_divide_int_def signed_modulo_int_def sgn_if)
  have q0: "0 \<le> N div 1000000000" "N div 1000000000 \<le> N"
    using N0 zdiv_mono2 [of N 1 1000000000] by (simp_all add: pos_imp_zdiv_nonneg_iff)
  have m0: "0 \<le> N mod 1000000000" "N mod 1000000000 \<le> N"
    using N0 by (simp_all add: zmod_le_nonneg_dividend) 
  show "sint (tv_nsec (calc_abs_timeout now timeout_ms))
           = (sint (tv_nsec now) + sint timeout_ms * 1000000) mod 1000000000"
  proof -
    have "tv_nsec (calc_abs_timeout now timeout_ms) = (word_of_int (N mod 1000000000) :: 'l word)"
      by (simp add: calc_abs_timeout_def Let_def c_mod_def n1 sN sB md)
    moreover have "sint (word_of_int (N mod 1000000000) :: 'l word) = N mod 1000000000"
      using rng [OF m0] by (intro sint_in_range) auto
    ultimately show ?thesis by (simp add: N_def)
  qed
  show "sint (tv_sec (calc_abs_timeout now timeout_ms))
           = sint (tv_sec now) + (sint (tv_nsec now) + sint timeout_ms * 1000000) div 1000000000"
  proof -
    have sq: "sint (word_of_int (N div 1000000000) :: 'l word) = N div 1000000000"
      using rng [OF q0] by (intro sint_in_range) auto
    have "tv_sec (calc_abs_timeout now timeout_ms)
            = tv_sec now + scast (word_of_int (N div 1000000000) :: 'l word)"
      by (simp add: calc_abs_timeout_def Let_def c_div_def n1 sN sB dv)
    also have "(scast (word_of_int (N div 1000000000) :: 'l word) :: 't word)
                 = word_of_int (N div 1000000000)"
    proof -
      have "(scast (word_of_int (N div 1000000000) :: 'l word) :: 't word)
              = word_of_int (sint (word_of_int (N div 1000000000) :: 'l word))"
        by (rule scast_eq)
      then show ?thesis unfolding sq .
    qed
    also have "tv_sec now + (word_of_int (N div 1000000000) :: 't word)
                 = word_of_int (sint (tv_sec now) + N div 1000000000)"
      by simp
    finally have "sint (tv_sec (calc_abs_timeout now timeout_ms))
            = sint (word_of_int (sint (tv_sec now) + N div 1000000000) :: 't word)" by simp
    also have "\<dots> = sint (tv_sec now) + N div 1000000000"
    proof (rule sint_in_range)
      show "- (2 ^ (LENGTH('t) - 1)) \<le> sint (tv_sec now) + N div 1000000000"
        using sint_ge [of "tv_sec now"] q0(1) by linarith
      show "sint (tv_sec now) + N div 1000000000 < 2 ^ (LENGTH('t) - 1)"
        using fits by (simp add: N_def)
    qed
    finally show ?thesis by (simp add: N_def)
  qed
qed

subsection \<open>The example values\<close>

lemma ex_create: "mtmq_create \<lparr>malloc_ok = True, setclock_rc = 0\<rparr> 2 = Some ex_new"
  by (simp add: mtmq_create_def ex_new_def numeral_2_eq_2)

lemma ex_run_fill:
  "run ex_new ex_fill =
     Returns ([\<lparr>code = 1, data = 0\<rparr>, \<lparr>code = 2, data = 0\<rparr>], [], ex_filled)"
  by (simp add: ex_fill_def ex_new_def ex_filled_def eval_defs)

lemma ex_run:
  "run ex_new ex_calls =
     Returns ([\<lparr>code = 1, data = 0\<rparr>, \<lparr>code = 2, data = 0\<rparr>],
              [Some \<lparr>code = 1, data = 0\<rparr>, Some \<lparr>code = 2, data = 0\<rparr>], ex_used)"
  by (simp add: ex_calls_def ex_fill_def ex_new_def ex_used_def eval_defs)

lemma ex_full_inv: "mtmq_inv 2 ex_full"
  by (simp add: mtmq_inv_def ex_full_def word_sle_eq word_sless_alt)

lemma ex_fin_inv: "mtmq_inv 2 ex_fin"
  by (simp add: mtmq_inv_def ex_fin_def word_sle_eq word_sless_alt)

lemma ex_fin_contents: "contents ex_fin = [\<lparr>code = 5, data = 0\<rparr>, \<lparr>code = 6, data = 0\<rparr>]"
  by (simp add: contents_def ex_fin_def numeral_2_eq_2)

section \<open>FIFO order for a sequential producer and consumer\<close>

text \<open>
  C1. On a queue created with capacity \<open>c \<ge> 1\<close>, for calls made one after the other with
  no other thread touching the queue: what the pops that returned \<open>MTMQ_RC_OK\<close> stored
  through their output pointers, followed by the elements still buffered, is exactly the
  sequence of (code, data) pairs passed to the pushes that returned \<open>MTMQ_RC_OK\<close>, in the
  same order; every such pop delivered a pair, and once the queue is empty again the two
  sequences are equal. The calls make progress: after any such run, a pop (timed or not)
  on the non-empty queue returns \<open>MTMQ_RC_OK\<close> with the oldest pushed pair not yet popped
  and removes it, and a push on the non-full queue returns \<open>MTMQ_RC_OK\<close> and appends its
  pair.
\<close>

theorem spsc_fifo:
  assumes "1 \<le>s c" and "mtmq_create cenv c = Some q"
    and "list_all (\<lambda>x. quiet (env_of x)) cs"
    and "run q cs = Returns (pushed, popped, qf)"
  shows "popped @ map Some (contents qf) = map Some pushed \<and>
         (num qf = 0 \<longrightarrow> popped = map Some pushed) \<and>
         (num qf \<noteq> 0 \<and> lock_rc env = 0 \<longrightarrow>
            (\<exists>q'. mtmq_pop env (Some qf) timeout
                     = Returns (MTMQ_RC_OK, Some (pushed ! length popped), Some q') \<and>
                   contents q' = tl (contents qf))) \<and>
         (num qf <s c \<and> lock_rc env = 0 \<longrightarrow>
            (\<exists>q'. mtmq_push env (Some qf) cd d timeout = Returns (MTMQ_RC_OK, Some q') \<and>
                   contents q' = contents qf @ [\<lparr>code = cd, data = d\<rparr>]))"
proof -
  note cr = mtmq_create_inv [OF assms(1,2)]
  from run_fifo [OF cr(1) assms(3,4)]
  have eq: "popped @ map Some (contents qf) = map Some pushed"
    and i: "mtmq_inv c qf" and f: "fin qf = 0"
    using cr(2,3) by simp_all
  have "popped = map Some pushed" if "num qf = 0"
    using eq contents_empty_iff [OF i] that by simp
  moreover have "\<exists>q'. mtmq_pop env (Some qf) timeout
                     = Returns (MTMQ_RC_OK, Some (pushed ! length popped), Some q') \<and>
                   contents q' = tl (contents qf)"
    if n: "num qf \<noteq> 0" and lk: "lock_rc env = 0"
  proof -
    have ne: "contents qf \<noteq> []" using contents_empty_iff [OF i] n by simp
    have "length popped < length pushed"
      using arg_cong [OF eq, of length] ne by (cases "contents qf") auto
    then have "Some (pushed ! length popped) = map Some pushed ! length popped"
      by simp
    also have "\<dots> = (popped @ map Some (contents qf)) ! length popped"
      using eq by simp
    also have "\<dots> = Some (hd (contents qf))"
      using ne by (simp add: nth_append hd_conv_nth)
    finally have h: "hd (contents qf) = pushed ! length popped" by simp
    show ?thesis
      using pop_nonempty [OF i n lk, of timeout] pop_step(3) [OF i n] h by simp
  qed
  moreover have "\<exists>q'. mtmq_push env (Some qf) cd d timeout = Returns (MTMQ_RC_OK, Some q') \<and>
                   contents q' = contents qf @ [\<lparr>code = cd, data = d\<rparr>]"
    if r: "num qf <s c" and lk: "lock_rc env = 0"
  proof -
    have room: "num qf <s size_q qf" using r mtmq_invD(1) [OF i] by simp
    show ?thesis
      using push_room [OF i f room lk, of cd d timeout]
        push_step(3) [OF i room, where e = "\<lparr>code = cd, data = d\<rparr>"] by simp
  qed
  ultimately show ?thesis using eq by blast
qed

theorem spsc_fifo_witness:
  "(1::c_int) \<le>s 2 \<and>
   mtmq_create \<lparr>malloc_ok = True, setclock_rc = 0\<rparr> 2 = Some ex_new \<and>
   list_all (\<lambda>x. quiet (env_of x)) ex_calls \<and>
   run ex_new ex_calls =
     Returns ([\<lparr>code = 1, data = 0\<rparr>, \<lparr>code = 2, data = 0\<rparr>],
              [Some \<lparr>code = 1, data = 0\<rparr>, Some \<lparr>code = 2, data = 0\<rparr>], ex_used) \<and>
   num ex_used = 0 \<and>
   list_all (\<lambda>x. quiet (env_of x)) ex_fill \<and>
   run ex_new ex_fill =
     Returns ([\<lparr>code = 1, data = 0\<rparr>, \<lparr>code = 2, data = 0\<rparr>], [], ex_filled) \<and>
   num ex_filled \<noteq> 0 \<and> lock_rc ex_env = 0 \<and>
   (\<exists>q'. mtmq_pop ex_env (Some ex_filled) 250
            = Returns (MTMQ_RC_OK, Some \<lparr>code = 1, data = 0\<rparr>, Some q') \<and>
          contents q' = [\<lparr>code = 2, data = 0\<rparr>]) \<and>
   num ex_used <s 2 \<and>
   (\<exists>q'. mtmq_push ex_env (Some ex_used) 8 0 100 = Returns (MTMQ_RC_OK, Some q') \<and>
          contents q' = [\<lparr>code = 8, data = 0\<rparr>])"
proof -
  have c: "contents ex_filled = [\<lparr>code = 1, data = 0\<rparr>, \<lparr>code = 2, data = 0\<rparr>]"
    "contents ex_used = []"
    by (simp_all add: contents_def ex_filled_def ex_used_def numeral_2_eq_2)
  have h: "(1::c_int) \<le>s 2" "list_all (\<lambda>x. quiet (env_of x)) ex_calls"
    "list_all (\<lambda>x. quiet (env_of x)) ex_fill" "lock_rc ex_env = 0"
    "num ex_filled \<noteq> 0" "num ex_used = 0" "num ex_used <s 2"
    by (simp_all add: ex_calls_def ex_fill_def ex_env_def ex_env_to_def quiet_def
        word_sle_eq word_sless_alt ex_filled_def ex_used_def)
  have p: "\<exists>q'. mtmq_pop ex_env (Some ex_filled) 250
                 = Returns (MTMQ_RC_OK, Some \<lparr>code = 1, data = 0\<rparr>, Some q') \<and>
               contents q' = [\<lparr>code = 2, data = 0\<rparr>]"
    using spsc_fifo [OF h(1) ex_create h(3) ex_run_fill, of ex_env 250] h(4,5) c(1) by simp
  have u: "\<exists>q'. mtmq_push ex_env (Some ex_used) 8 0 100 = Returns (MTMQ_RC_OK, Some q') \<and>
               contents q' = [\<lparr>code = 8, data = 0\<rparr>]"
    using spsc_fifo [OF h(1) ex_create h(2) ex_run, of ex_env 100 8 0] h(4,7) c(2) by simp
  show ?thesis
    using h ex_create ex_run ex_run_fill p u by (intro conjI)
qed

section \<open>Pop on a finalized queue\<close>

text \<open>
  C2. On a finalized queue satisfying the invariant, for a pop that acquires the mutex, with
  any timeout and even if no wake-up ever comes: while \<open>num\<close> is not 0 the pop returns
  \<open>MTMQ_RC_OK\<close> with the oldest buffered element and removes it; once \<open>num\<close> is 0 it returns
  \<open>MTMQ_RC_FINALIZED\<close>. So a consumer that keeps popping receives every buffered element, in
  order, with \<open>MTMQ_RC_OK\<close>, and only then \<open>MTMQ_RC_FINALIZED\<close>.
\<close>

theorem pop_after_finalize:
  assumes "mtmq_inv c q" and "fin q \<noteq> 0" and "lock_rc env = 0"
    and "list_all (\<lambda>x. lock_rc (fst x) = 0) es"
  shows "(num q \<noteq> 0 \<longrightarrow>
            (\<exists>q'. mtmq_pop env (Some q) timeout
                     = Returns (MTMQ_RC_OK, Some (hd (contents q)), Some q') \<and>
                   contents q' = tl (contents q) \<and> mtmq_inv c q' \<and> fin q' \<noteq> 0)) \<and>
         (num q = 0 \<longrightarrow>
            mtmq_pop env (Some q) timeout = Returns (MTMQ_RC_FINALIZED, None, Some q)) \<and>
         (\<exists>qf. pops q es =
            Returns (map (\<lambda>x. (MTMQ_RC_OK, Some x)) (take (length es) (contents q)) @
                     replicate (length es - length (contents q)) (MTMQ_RC_FINALIZED, None), qf))"
proof (intro conjI impI)
  assume n: "num q \<noteq> 0"
  let ?q' = "q\<lparr>first := (if first q + 1 <s size_q q then first q + 1 else 0), num := num q - 1\<rparr>"
  note ps = pop_step [OF assms(1) n]
  have "contents ?q' = tl (contents q)" using ps(3) by simp
  moreover have "fin ?q' \<noteq> 0" using assms(2) by simp
  ultimately show "\<exists>q'. mtmq_pop env (Some q) timeout
                     = Returns (MTMQ_RC_OK, Some (hd (contents q)), Some q') \<and>
                   contents q' = tl (contents q) \<and> mtmq_inv c q' \<and> fin q' \<noteq> 0"
    using pop_nonempty [OF assms(1) n assms(3)] ps(2) by blast
next
  assume "num q = 0"
  then show "mtmq_pop env (Some q) timeout = Returns (MTMQ_RC_FINALIZED, None, Some q)"
    using assms(2,3) by (simp add: pop_finalized_empty)
next
  show "\<exists>qf. pops q es =
            Returns (map (\<lambda>x. (MTMQ_RC_OK, Some x)) (take (length es) (contents q)) @
                     replicate (length es - length (contents q)) (MTMQ_RC_FINALIZED, None), qf)"
    using assms(1,2,4) by (rule pops_finalized)
qed

theorem pop_after_finalize_witness:
  "mtmq_inv 2 ex_fin \<and> fin ex_fin \<noteq> 0 \<and> num ex_fin \<noteq> 0 \<and> lock_rc ex_env = 0 \<and>
   list_all (\<lambda>x. lock_rc (fst x) = 0) ex_pops \<and>
   contents ex_fin = [\<lparr>code = 5, data = 0\<rparr>, \<lparr>code = 6, data = 0\<rparr>] \<and>
   (\<exists>q'. mtmq_pop ex_env (Some ex_fin) 250
            = Returns (MTMQ_RC_OK, Some \<lparr>code = 5, data = 0\<rparr>, Some q') \<and>
          contents q' = [\<lparr>code = 6, data = 0\<rparr>]) \<and>
   (\<exists>qf. pops ex_fin ex_pops
      = Returns ([(MTMQ_RC_OK, Some \<lparr>code = 5, data = 0\<rparr>), (MTMQ_RC_OK, Some \<lparr>code = 6, data = 0\<rparr>),
                  (MTMQ_RC_FINALIZED, None), (MTMQ_RC_FINALIZED, None)], qf))"
proof -
  have h: "fin ex_fin \<noteq> 0" "lock_rc ex_env = 0" "list_all (\<lambda>x. lock_rc (fst x) = 0) ex_pops"
    and n: "num ex_fin \<noteq> 0"
    by (simp_all add: ex_fin_def ex_env_def ex_pops_def)
  have l: "length ex_pops = 4" by (simp add: ex_pops_def)
  show ?thesis
    using pop_after_finalize [of 2 ex_fin ex_env ex_pops 250, OF ex_fin_inv h] h n
      ex_fin_inv ex_fin_contents
    by (auto simp: l numeral_2_eq_2 numeral_eq_Suc)
qed

section \<open>Push on a finalized queue\<close>

text \<open>
  C3. \<open>mtmq_finalize\<close> leaves the \<open>fin\<close> flag set, and on a queue whose \<open>fin\<close> flag is set a
  push that acquires the mutex returns \<open>MTMQ_RC_FINALIZED\<close> and leaves the queue as it was:
  nothing is enqueued, whatever \<open>num\<close> and \<open>size\<close> are (so also with free slots), whatever
  the timeout, and without waiting.
\<close>

theorem push_after_finalize:
  assumes "fin q \<noteq> 0" and "lock_rc env = 0"
  shows "mtmq_push env (Some q) c d timeout = Returns (MTMQ_RC_FINALIZED, Some q) \<and>
         (\<exists>qf. mtmq_finalize (Some q0) = Some qf \<and> fin qf \<noteq> 0)"
  using assms by (simp add: mtmq_push_def mtmq_finalize_def wait_wr_no_wait Let_def)

theorem push_after_finalize_witness:
  "mtmq_finalize (Some ex_half) = Some (ex_half\<lparr>fin := 1\<rparr>) \<and>
   fin (ex_half\<lparr>fin := 1\<rparr>) \<noteq> 0 \<and> lock_rc ex_env = 0 \<and>
   num (ex_half\<lparr>fin := 1\<rparr>) <s size_q (ex_half\<lparr>fin := 1\<rparr>) \<and>
   mtmq_push ex_env (Some (ex_half\<lparr>fin := 1\<rparr>)) 7 0 (- 1) =
     Returns (MTMQ_RC_FINALIZED, Some (ex_half\<lparr>fin := 1\<rparr>))"
  using push_after_finalize [of "ex_half\<lparr>fin := 1\<rparr>" ex_env 7 0 "- 1" ex_half]
  by (simp add: mtmq_finalize_def ex_half_def ex_env_def word_sless_alt)

section \<open>The ring invariant\<close>

text \<open>
  C4. For a capacity \<open>c \<ge> 1\<close> the invariant \<open>mtmq_inv c\<close> (\<open>0 \<le> num \<le> c\<close>, \<open>first\<close> and \<open>last\<close>
  in \<open>[0, c)\<close>, \<open>num\<close> congruent to \<open>last - first\<close> modulo \<open>c\<close>, with \<open>size = c\<close> and \<open>c\<close> slots)
  holds of the queue \<open>mtmq_create\<close> returns, and is preserved by \<open>mtmq_push\<close>, \<open>mtmq_pop\<close>,
  \<open>mtmq_finalize\<close> and \<open>mtmq_is_finalized\<close>, provided every state in which other threads
  leave the queue during a wait satisfies it too. Under the invariant push and pop never
  index outside \<open>arr\<close>.
\<close>

theorem ring_invariant:
  assumes "1 \<le>s c"
  shows "(mtmq_create cenv c = Some q0 \<longrightarrow> mtmq_inv c q0) \<and>
         (mtmq_inv c q \<and> others_keep (mtmq_inv c) env \<longrightarrow>
            mtmq_push env (Some q) cd d timeout \<noteq> Undefined \<and>
            (mtmq_push env (Some q) cd d timeout = Returns (rc, qp') \<longrightarrow>
               (\<exists>q'. qp' = Some q' \<and> mtmq_inv c q')) \<and>
            mtmq_pop env (Some q) timeout \<noteq> Undefined \<and>
            (mtmq_pop env (Some q) timeout = Returns (rc', out, qr') \<longrightarrow>
               (\<exists>q'. qr' = Some q' \<and> mtmq_inv c q')) \<and>
            (\<exists>q'. mtmq_finalize (Some q) = Some q' \<and> mtmq_inv c q') \<and>
            snd (mtmq_is_finalized (Some q)) = Some q)"
proof -
  have "\<exists>q'. mtmq_finalize (Some q) = Some q' \<and> mtmq_inv c q'" if "mtmq_inv c q"
    using that by (simp add: mtmq_finalize_def)
  moreover have "snd (mtmq_is_finalized (Some q)) = Some q"
    by (simp add: mtmq_is_finalized_def)
  moreover have "mtmq_create cenv c = Some q0 \<longrightarrow> mtmq_inv c q0"
    using mtmq_create_inv(1) [OF assms] by blast
  ultimately show ?thesis
    using push_keeps_inv [of c q env] pop_keeps_inv [of c q env] by (intro conjI impI) auto
qed

theorem ring_invariant_witness:
  "(1::c_int) \<le>s 2 \<and>
   mtmq_create \<lparr>malloc_ok = True, setclock_rc = 0\<rparr> 2 = Some ex_new \<and> mtmq_inv 2 ex_new \<and>
   mtmq_inv 2 ex_full \<and> others_keep (mtmq_inv 2) ex_env_woken \<and>
   mtmq_push ex_env_woken (Some ex_full) 7 0 (- 1)
     = Returns (MTMQ_RC_OK, Some (ex_half\<lparr>num := 2, last_q := 0,
                                   arr := [\<lparr>code = 5, data = 0\<rparr>, \<lparr>code = 7, data = 0\<rparr>]\<rparr>)) \<and>
   mtmq_inv 2 (ex_half\<lparr>num := 2, last_q := 0,
                        arr := [\<lparr>code = 5, data = 0\<rparr>, \<lparr>code = 7, data = 0\<rparr>]\<rparr>) \<and>
   mtmq_pop ex_env_woken (Some ex_full) (- 1)
     = Returns (MTMQ_RC_OK, Some \<lparr>code = 5, data = 0\<rparr>, Some (ex_full\<lparr>first := 0, num := 1\<rparr>)) \<and>
   mtmq_inv 2 (ex_full\<lparr>first := 0, num := 1\<rparr>)"
  using ring_invariant [where c = 2 and cenv = "\<lparr>malloc_ok = True, setclock_rc = 0\<rparr>"
      and ?q0.0 = ex_new and q = ex_full and env = ex_env_woken
      and cd = 7 and d = 0 and timeout = "- 1" and rc = MTMQ_RC_OK and rc' = MTMQ_RC_OK
      and qp' = "Some (ex_half\<lparr>num := 2, last_q := 0,
                                 arr := [\<lparr>code = 5, data = 0\<rparr>, \<lparr>code = 7, data = 0\<rparr>]\<rparr>)"
      and out = "Some \<lparr>code = 5, data = 0\<rparr>" and qr' = "Some (ex_full\<lparr>first := 0, num := 1\<rparr>)"]
    ex_create ex_full_inv
  by (simp add: ex_full_def ex_half_def ex_new_def ex_env_woken_def eval_defs mtmq_inv_def)

section \<open>Finalization is idempotent and one-way\<close>

text \<open>
  C5. \<open>mtmq_finalize\<close> applied twice gives the same queue as applied once; and once \<open>fin\<close> is
  set, \<open>mtmq_push\<close>, \<open>mtmq_pop\<close> (whatever they return, whatever other threads do during
  the call), \<open>mtmq_finalize\<close> and \<open>mtmq_is_finalized\<close> leave it at the same value.
\<close>

theorem finalize_idempotent_fin_monotonic:
  "mtmq_finalize (mtmq_finalize qp) = mtmq_finalize qp \<and>
   (fin q \<noteq> 0 \<longrightarrow>
      (mtmq_push env (Some q) cd d timeout = Returns (rc, qp') \<longrightarrow>
         (\<exists>q'. qp' = Some q' \<and> fin q' = fin q)) \<and>
      (mtmq_pop env (Some q) timeout = Returns (rc', out, qr') \<longrightarrow>
         (\<exists>q'. qr' = Some q' \<and> fin q' = fin q)) \<and>
      mtmq_finalize (Some q) = Some q \<and>
      snd (mtmq_is_finalized (Some q)) = Some q)"
proof -
  have "mtmq_finalize (mtmq_finalize qp) = mtmq_finalize qp"
    by (cases qp) (simp_all add: mtmq_finalize_def)
  moreover have "mtmq_finalize (Some q) = Some q" if "fin q \<noteq> 0"
    using that by (simp add: mtmq_finalize_def)
  moreover have "snd (mtmq_is_finalized (Some q)) = Some q"
    by (simp add: mtmq_is_finalized_def)
  ultimately show ?thesis
    using push_keeps_fin pop_keeps_fin by blast
qed

theorem finalize_idempotent_fin_monotonic_witness:
  "mtmq_finalize (mtmq_finalize (Some ex_full)) = mtmq_finalize (Some ex_full) \<and>
   mtmq_finalize (Some ex_full) = Some ex_fin \<and> fin ex_fin \<noteq> 0 \<and>
   mtmq_push ex_env (Some ex_fin) 7 0 0 = Returns (MTMQ_RC_FINALIZED, Some ex_fin) \<and>
   mtmq_pop ex_env (Some ex_fin) 0
     = Returns (MTMQ_RC_OK, Some \<lparr>code = 5, data = 0\<rparr>, Some (ex_fin\<lparr>first := 0, num := 1\<rparr>)) \<and>
   fin (ex_fin\<lparr>first := 0, num := 1\<rparr>) = fin ex_fin"
  using finalize_idempotent_fin_monotonic [where qp = "Some ex_full" and q = ex_fin
      and env = ex_env and cd = 7 and d = 0 and timeout = 0
      and rc = MTMQ_RC_FINALIZED and qp' = "Some ex_fin" and rc' = MTMQ_RC_OK
      and out = "Some \<lparr>code = 5, data = 0\<rparr>" and qr' = "Some (ex_fin\<lparr>first := 0, num := 1\<rparr>)"]
  by (simp add: ex_full_def ex_fin_def eval_defs)

section \<open>Creation with capacity 0\<close>

text \<open>
  C6, as the code has it. \<open>mtmq_create\<close> does not test its argument: with capacity 0 it
  returns NULL only when \<open>malloc\<close> or \<open>pthread_condattr_setclock\<close> fails, and otherwise a
  handle to a queue with no slots.
\<close>

theorem mtmq_create_zero:
  "mtmq_create env 0 =
     (if malloc_ok env \<and> setclock_rc env = 0
      then Some \<lparr>num_rd = 0, num_wr = 0, fin = 0, num = 0, first = 0, last_q = 0,
                 size_q = 0, arr = []\<rparr>
      else None)"
  by (simp add: mtmq_create_def)

text \<open>C6 as stated (capacity 0 is rejected with a NULL handle) fails when both calls succeed.\<close>

theorem mtmq_create_zero_not_rejected:
  "mtmq_create \<lparr>malloc_ok = True, setclock_rc = 0\<rparr> 0 \<noteq> None"
  by (simp add: mtmq_create_def)

section \<open>Null handles\<close>

text \<open>
  C7, as the code has it. With a NULL handle \<open>mtmq_push\<close>, \<open>mtmq_pop\<close> and \<open>mtmq_destroy\<close>
  return \<open>MTMQ_RC_ERROR\<close>, and \<open>mtmq_finalize\<close> returns having done nothing;
  \<open>mtmq_is_finalized\<close> returns 1, the value it returns for a finalized queue.
\<close>

theorem null_handle_results:
  "mtmq_push env None c d timeout = Returns (MTMQ_RC_ERROR, None) \<and>
   mtmq_pop env None timeout = Returns (MTMQ_RC_ERROR, None, None) \<and>
   mtmq_destroy denv None = (MTMQ_RC_ERROR, None) \<and>
   mtmq_finalize None = None \<and>
   fst (mtmq_is_finalized None) = 1 \<and>
   fst (mtmq_is_finalized None) = fst (mtmq_is_finalized (Some (q\<lparr>fin := 1\<rparr>)))"
  by (simp add: mtmq_push_def mtmq_pop_def mtmq_destroy_def mtmq_finalize_def
      mtmq_is_finalized_def)

text \<open>
  C7 as stated (every operation answers a NULL handle with the Error outcome) fails for
  \<open>mtmq_is_finalized\<close>: its answer is not \<open>MTMQ_RC_ERROR\<close>, and it is the answer a
  finalized queue gives.
\<close>

theorem null_handle_is_finalized_not_error:
  "fst (mtmq_is_finalized None) \<noteq> MTMQ_RC_ERROR \<and>
   fst (mtmq_is_finalized None) = fst (mtmq_is_finalized (Some ex_fin))"
  by (simp add: mtmq_is_finalized_def MTMQ_RC_ERROR_def ex_fin_def)

text \<open>
  C10. \<open>mtmq_is_finalized\<close> called with a NULL handle returns 1: a NULL queue reports itself
  as finalized.
\<close>

theorem mtmq_is_finalized_null:
  "mtmq_is_finalized None = (1, None)"
  by (simp add: mtmq_is_finalized_def)

section \<open>The deadline\<close>

text \<open>
  Where \<open>long\<close> has at least 52 bits (64 on LP64 platforms), for every \<open>timeout_ms \<ge> 0\<close>
  and every current time with \<open>0 \<le> tv_nsec < 10^9\<close> whose deadline's seconds fit \<open>time_t\<close>,
  \<open>calc_abs_timeout\<close> returns the time exactly \<open>timeout_ms\<close> milliseconds later, with
  \<open>tv_nsec\<close> normalised into \<open>[0, 10^9)\<close>: the product \<open>timeout_ms * 10^6\<close> is below
  \<open>2^51\<close> and does not overflow.
\<close>

lemma calc_abs_timeout_exact:
  fixes now :: "('t::len word, 'l::len word) timespec"
  assumes "52 \<le> LENGTH('l)"
    and "0 \<le> sint timeout_ms"
    and "0 \<le> sint (tv_nsec now)" and "sint (tv_nsec now) < 1000000000"
    and "sint (tv_sec now) + (sint (tv_nsec now) + sint timeout_ms * 1000000) div 1000000000
           < 2 ^ (LENGTH('t) - 1)"
  shows "sint (tv_sec (calc_abs_timeout now timeout_ms)) * 1000000000
           + sint (tv_nsec (calc_abs_timeout now timeout_ms))
         = sint (tv_sec now) * 1000000000 + sint (tv_nsec now) + sint timeout_ms * 1000000
         \<and> 0 \<le> sint (tv_nsec (calc_abs_timeout now timeout_ms))
         \<and> sint (tv_nsec (calc_abs_timeout now timeout_ms)) < 1000000000"
  unfolding calc_abs_timeout_fields [OF assms]
  by (simp add: algebra_simps)

text \<open>With 64-bit \<open>long\<close> and \<open>time_t\<close>, the largest timeout, 5.999999999 s after the epoch.\<close>

lemma calc_abs_timeout_lp64:
  "calc_abs_timeout (\<lparr>tv_sec = 5, tv_nsec = 999999999\<rparr> :: (64 word, 64 word) timespec) 2147483647
     = \<lparr>tv_sec = 2147489, tv_nsec = 646999999\<rparr>"
  by (simp add: calc_abs_timeout_def Let_def c_div_def c_mod_def signed_divide_int_def
      signed_modulo_int_def)

text \<open>
  C8. The claim: for every \<open>timeout_ms \<ge> 0\<close> and every current time with
  \<open>0 \<le> tv_nsec < 10^9\<close>, \<open>calc_abs_timeout\<close> gives the time exactly \<open>timeout_ms\<close>
  milliseconds later with \<open>tv_nsec\<close> in \<open>[0, 10^9)\<close>, the product \<open>timeout_ms * 10^6\<close> being
  formed in a type wide enough not to overflow. The code forms the product in
  \<open>t.tv_nsec\<close>, a \<open>long\<close>, which its comment calls a wider type. Where \<open>long\<close> has 32 bits, as \<open>int\<close>
  has (the \<open>_WIN32\<close> target of the file, and 32-bit builds), the type is not wider: for
  \<open>timeout_ms = 2148\<close> at time \<open>(0, 0)\<close> the product \<open>2148000000\<close> wraps to \<open>-2146967296\<close>
  and the deadline comes out as \<open>tv_sec = -2\<close>, \<open>tv_nsec = -146967296\<close>, which is neither
  2.148 s later nor normalised.
\<close>

theorem calc_abs_timeout_long32_wraps:
  "calc_abs_timeout (\<lparr>tv_sec = 0, tv_nsec = 0\<rparr> :: (64 word, 32 word) timespec) 2148
     = \<lparr>tv_sec = - 2, tv_nsec = - 146967296\<rparr> \<and>
   sint (scast (2148 :: c_int) * 1000000 :: 32 word) = - 2146967296 \<and>
   sint (- 2 :: 64 word) * 1000000000 + sint (- 146967296 :: 32 word)
     \<noteq> sint (0 :: 64 word) * 1000000000 + sint (0 :: 32 word) + sint (2148 :: c_int) * 1000000 \<and>
   \<not> 0 \<le> sint (- 146967296 :: 32 word)"
  by (simp add: calc_abs_timeout_def Let_def c_div_def c_mod_def signed_divide_int_def
      signed_modulo_int_def)

section \<open>Failed calls\<close>

text \<open>
  C9, as the code has it. A push or pop that returns anything but \<open>MTMQ_RC_OK\<close> changes
  nothing itself: the queue it leaves is exactly the queue as it stood when its wait
  ended (the initial queue, with the caller counted as waiting, as the wake-ups the loop
  consumed left it) with the caller's waiting count taken back, and such a pop stores
  nothing through its output pointers. So when no other thread changes the queue during
  the call, or the handle is NULL, or the mutex is not acquired, the queue is exactly
  what it was when the call began.
\<close>

theorem failed_call_leaves_queue:
  "(mtmq_push env qp c d timeout = Returns (rc, qp') \<and> rc \<noteq> MTMQ_RC_OK \<longrightarrow>
      (quiet env \<longrightarrow> qp' = qp) \<and>
      (qp = None \<or> lock_rc env \<noteq> 0 \<longrightarrow> qp' = qp) \<and>
      (\<forall>q. qp = Some q \<and> lock_rc env = 0 \<longrightarrow>
         (\<exists>rc1 q1 k.
            wait_wr (wakes env) 0 (q\<lparr>num_wr := num_wr q + 1\<rparr>) = Some (rc1, q1) \<and>
            k \<le> length (wakes env) \<and>
            q1 = last_left (take k (wakes env)) (q\<lparr>num_wr := num_wr q + 1\<rparr>) \<and>
            qp' = Some (q1\<lparr>num_wr := num_wr q1 - 1\<rparr>)))) \<and>
   (mtmq_pop env' qr timeout' = Returns (rc', out, qr') \<and> rc' \<noteq> MTMQ_RC_OK \<longrightarrow>
      out = None \<and>
      (quiet env' \<longrightarrow> qr' = qr) \<and>
      (qr = None \<or> lock_rc env' \<noteq> 0 \<longrightarrow> qr' = qr) \<and>
      (\<forall>q. qr = Some q \<and> lock_rc env' = 0 \<longrightarrow>
         (\<exists>rc1 q1 k.
            wait_rd (wakes env') 0 (q\<lparr>num_rd := num_rd q + 1\<rparr>) = Some (rc1, q1) \<and>
            k \<le> length (wakes env') \<and>
            q1 = last_left (take k (wakes env')) (q\<lparr>num_rd := num_rd q + 1\<rparr>) \<and>
            qr' = Some (q1\<lparr>num_rd := num_rd q1 - 1\<rparr>))))"
proof (intro conjI impI allI; (elim conjE)?)
  assume r: "mtmq_push env qp c d timeout = Returns (rc, qp')" and n: "rc \<noteq> MTMQ_RC_OK"
  show "qp' = qp" if "quiet env"
    using that r n by (rule push_fail_unchanged)
  show "qp' = qp" if "qp = None \<or> lock_rc env \<noteq> 0"
    using that r by (rule fail_no_lock(1))
  show "\<exists>rc1 q1 k.
          wait_wr (wakes env) 0 (q\<lparr>num_wr := num_wr q + 1\<rparr>) = Some (rc1, q1) \<and>
          k \<le> length (wakes env) \<and>
          q1 = last_left (take k (wakes env)) (q\<lparr>num_wr := num_wr q + 1\<rparr>) \<and>
          qp' = Some (q1\<lparr>num_wr := num_wr q1 - 1\<rparr>)"
    if "qp = Some q" and "lock_rc env = 0" for q
    using push_fail_state [of env q c d timeout rc qp'] r n that by simp
next
  assume r: "mtmq_pop env' qr timeout' = Returns (rc', out, qr')" and n: "rc' \<noteq> MTMQ_RC_OK"
  show "out = None"
    using r n by (rule pop_fail_out)
  show "qr' = qr" if "quiet env'"
    using pop_fail_unchanged [OF that r n] by simp
  show "qr' = qr" if "qr = None \<or> lock_rc env' \<noteq> 0"
    using fail_no_lock(2) [OF that r] by simp
  show "\<exists>rc1 q1 k.
          wait_rd (wakes env') 0 (q\<lparr>num_rd := num_rd q + 1\<rparr>) = Some (rc1, q1) \<and>
          k \<le> length (wakes env') \<and>
          q1 = last_left (take k (wakes env')) (q\<lparr>num_rd := num_rd q + 1\<rparr>) \<and>
          qr' = Some (q1\<lparr>num_rd := num_rd q1 - 1\<rparr>)"
    if "qr = Some q" and "lock_rc env' = 0" for q
    using pop_fail_state [of env' q timeout' rc' out qr'] r n that by simp
qed

theorem failed_call_leaves_queue_witness:
  "quiet ex_env_to \<and> lock_rc ex_env_to = 0 \<and>
   mtmq_push ex_env_to (Some ex_full) 9 0 100 = Returns (MTMQ_RC_TIMEDOUT, Some ex_full) \<and>
   mtmq_pop ex_env_to (Some ex_empty) 100 = Returns (MTMQ_RC_TIMEDOUT, None, Some ex_empty) \<and>
   MTMQ_RC_TIMEDOUT \<noteq> MTMQ_RC_OK \<and>
   \<not> quiet ex_env_fin \<and> lock_rc ex_env_fin = 0 \<and>
   mtmq_push ex_env_fin (Some ex_full) 9 0 100 = Returns (MTMQ_RC_FINALIZED, Some ex_fin) \<and>
   MTMQ_RC_FINALIZED \<noteq> MTMQ_RC_OK \<and>
   wait_wr (wakes ex_env_fin) 0 (ex_full\<lparr>num_wr := num_wr ex_full + 1\<rparr>)
     = Some (0, ex_full\<lparr>num_wr := 1, fin := 1\<rparr>) \<and>
   last_left (take 1 (wakes ex_env_fin)) (ex_full\<lparr>num_wr := num_wr ex_full + 1\<rparr>)
     = ex_full\<lparr>num_wr := 1, fin := 1\<rparr> \<and>
   ex_fin = ex_full\<lparr>num_wr := 1, fin := 1\<rparr>\<lparr>num_wr := 1 - 1\<rparr>"
  using failed_call_leaves_queue [where env = ex_env_to
      and qp = "Some ex_full" and c = 9 and d = 0 and timeout = 100 and rc = MTMQ_RC_TIMEDOUT
      and qp' = "Some ex_full" and env' = ex_env_to and qr = "Some ex_empty" and timeout' = 100
      and rc' = MTMQ_RC_TIMEDOUT and out = None and qr' = "Some ex_empty"]
    failed_call_leaves_queue [where env = ex_env_fin
      and qp = "Some ex_full" and c = 9 and d = 0 and timeout = 100 and rc = MTMQ_RC_FINALIZED
      and qp' = "Some ex_fin" and env' = ex_env_to and qr = "Some ex_empty" and timeout' = 100
      and rc' = MTMQ_RC_TIMEDOUT and out = None and qr' = "Some ex_empty"]
  by (simp add: ex_full_def ex_empty_def ex_fin_def ex_env_fin_def eval_defs)

text \<open>
  C9 as stated (after every non-Ok return the queue is exactly what it was when the call
  began) fails when another thread acts during the wait: a push that found the queue
  full and not finalized returns \<open>MTMQ_RC_FINALIZED\<close> after another thread has finalized
  the queue, and the finalized flag is no longer what it was when the call began.
\<close>

theorem failed_push_after_concurrent_finalize:
  "mtmq_push ex_env_fin (Some ex_full) 9 0 100 = Returns (MTMQ_RC_FINALIZED, Some ex_fin) \<and>
   MTMQ_RC_FINALIZED \<noteq> MTMQ_RC_OK \<and> fin ex_full = 0 \<and> fin ex_fin = 1 \<and>
   Some ex_fin \<noteq> Some ex_full"
  by (simp add: ex_full_def ex_fin_def ex_env_fin_def eval_defs)

end
